theory Spec2Isabelle
  imports Main "HOL-Library.Product_Lexorder"
begin

section \<open>The crossword solver of Week3/Project3/crossword/generate.py\<close>

text \<open>
  The class \<open>CrosswordCreator\<close> solves a crossword as a constraint satisfaction problem:
  node consistency, arc consistency (AC-3) and a backtracking search.

  Conventions of the embedding.
  \<^item> A Python \<open>set\<close> is a list; the order of the list is the order in which the set is
    iterated. Removing elements keeps the order of the others, and a copy keeps the order.
  \<^item> A Python \<open>dict\<close> is an association list in insertion order.
  \<^item> An exception is the left summand of a result: \<open>KeyError\<close> for a missing dictionary
    key, \<open>IndexError\<close> for an index out of range.
  \<^item> \<open>OutOfFuel\<close> is not a Python exception: the recursion of \<open>backtrack\<close> is bounded by
    a counter in the model, and \<open>OutOfFuel\<close> is the result when the counter is used up.
\<close>

datatype failure = KeyError | IndexError | OutOfFuel

subsection \<open>Variables and the crossword\<close>

text \<open>
  \<open>Variable\<close> and \<open>Crossword\<close> are classes of \<open>crossword.py\<close>, which \<open>generate.py\<close> imports;
  the solver only reads them. A variable is identified by its fields (row \<open>i\<close>, column \<open>j\<close>,
  direction, length). Of the crossword the solver reads the set of variables, the set of
  words, the dictionary \<open>overlaps\<close> (keyed by pairs of variables; a value is \<open>None\<close> or a pair
  of indices) and the method \<open>neighbors\<close>. They are parameters of the model: nothing is
  assumed about them but what a theorem states. The variables, the words and the neighbours
  of a variable are sets in Python, so the lists that stand for them are meant without
  repetition; \<open>len\<close> of such a set is the length of the list.
\<close>

datatype direction = ACROSS | DOWN

record variable =
  var_i :: int
  var_j :: int
  var_direction :: direction
  var_length :: int

record crossword =
  variables :: "variable list"
  words :: "string list"
  overlaps :: "variable \<times> variable \<Rightarrow> (int \<times> int) option option"
  neighbors :: "variable \<Rightarrow> variable list"

subsection \<open>Dictionaries, sets and indexing\<close>

type_synonym domain_dict = "(variable \<times> string list) list"
type_synonym assignment = "(variable \<times> string) list"

text \<open>\<open>d[k] = v\<close>: an existing key keeps its place, a new key goes to the end.\<close>

fun dict_set :: "'k \<Rightarrow> 'v \<Rightarrow> ('k \<times> 'v) list \<Rightarrow> ('k \<times> 'v) list" where
  "dict_set k v [] = [(k, v)]"
| "dict_set k v (p # d) = (if fst p = k then (k, v) # d else p # dict_set k v d)"

text \<open>\<open>del d[k]\<close> raises \<open>KeyError\<close> when the key is missing.\<close>

definition dict_del :: "'k \<Rightarrow> ('k \<times> 'v) list \<Rightarrow> failure + ('k \<times> 'v) list" where
  "dict_del k d =
     (case map_of d k of
        None \<Rightarrow> Inl KeyError
      | Some v \<Rightarrow> Inr (filter (\<lambda>p. fst p \<noteq> k) d))"

text \<open>\<open>a -= b\<close> on sets: the elements of \<open>b\<close> are removed from \<open>a\<close>, in place.\<close>

definition set_isub :: "'a list \<Rightarrow> 'a list \<Rightarrow> 'a list" where
  "set_isub a b = filter (\<lambda>w. w \<notin> set b) a"

text \<open>\<open>w[k]\<close> on a string: a negative index counts from the end.\<close>

definition py_index :: "string \<Rightarrow> int \<Rightarrow> failure + char" where
  "py_index w k =
     (let n = int (length w); k' = (if k < 0 then k + n else k)
      in if 0 \<le> k' \<and> k' < n then Inr (w ! nat k') else Inl IndexError)"

subsection \<open>The state of a CrosswordCreator\<close>

text \<open>
  \<open>self.domains\<close> is a reference to a dictionary object, and \<open>backtrack\<close> keeps a second
  reference (\<open>prev_domains\<close>) that it later assigns back to \<open>self.domains\<close>. The dictionary
  objects therefore live in a store, addressed by numbers: \<open>domains\<close> is the address held by
  \<open>self.domains\<close> and \<open>fresh\<close> is the next unused address. Every dictionary owns its sets (the
  constructor copies the words for each variable, \<open>deepcopy\<close> copies every set), so a set that
  is changed in place is changed in one dictionary only.

  \<open>bt_calls\<close> is not a field of the class. It counts the calls of \<open>backtrack\<close>, and no
  function of the model reads it.
\<close>

record creator =
  store :: "nat \<Rightarrow> domain_dict"
  fresh :: nat
  domains :: nat
  bt_calls :: nat

definition get_domain :: "creator \<Rightarrow> variable \<Rightarrow> failure + string list" where
  "get_domain s v =
     (case map_of (store s (domains s)) v of
        None \<Rightarrow> Inl KeyError
      | Some ws \<Rightarrow> Inr ws)"

definition set_domain :: "creator \<Rightarrow> variable \<Rightarrow> string list \<Rightarrow> creator" where
  "set_domain s v ws =
     s\<lparr>store := (store s)(domains s := dict_set v ws (store s (domains s)))\<rparr>"

text \<open>\<open>deepcopy(self.domains)\<close>: a new dictionary object with the same contents.\<close>

definition deepcopy_domains :: "creator \<Rightarrow> nat \<times> creator" where
  "deepcopy_domains s =
     (fresh s, s\<lparr>store := (store s)(fresh s := store s (domains s)), fresh := fresh s + 1\<rparr>)"

text \<open>
  The constructor: every variable starts with a copy of all the words.
\<close>

definition init_creator :: "crossword \<Rightarrow> creator" where
  "init_creator cw =
     \<lparr>store = (\<lambda>a. [])(0 := foldl (\<lambda>d v. dict_set v (words cw) d) [] (variables cw)),
      fresh = 1, domains = 0, bt_calls = 0\<rparr>"

subsection \<open>Node consistency\<close>

text \<open>
  \<open>enforce_node_consistency\<close> visits the keys of \<open>self.domains\<close>; for each it collects the
  words whose length differs from the variable's and removes them from the variable's set.
\<close>

fun node_loop :: "variable list \<Rightarrow> creator \<Rightarrow> failure + creator" where
  "node_loop [] s = Inr s"
| "node_loop (var # vars) s =
     (case get_domain s var of
        Inl e \<Rightarrow> Inl e
      | Inr ws \<Rightarrow>
          (let to_remove = filter (\<lambda>word. int (length word) \<noteq> var_length var) ws
           in node_loop vars (set_domain s var (set_isub ws to_remove))))"

definition enforce_node_consistency :: "creator \<Rightarrow> failure + creator" where
  "enforce_node_consistency s = node_loop (map fst (store s (domains s))) s"

subsection \<open>Arc consistency\<close>

definition check_overlap ::
  "crossword \<Rightarrow> variable \<Rightarrow> variable \<Rightarrow> string \<Rightarrow> string \<Rightarrow> failure + bool" where
  "check_overlap cw x y word_x word_y =
     (case overlaps cw (x, y) of
        None \<Rightarrow> Inl KeyError
      | Some None \<Rightarrow> Inr True
      | Some (Some (i, j)) \<Rightarrow>
          (case py_index word_x i of
             Inl e \<Rightarrow> Inl e
           | Inr a \<Rightarrow>
               (case py_index word_y j of
                  Inl e \<Rightarrow> Inl e
                | Inr b \<Rightarrow> Inr (a = b))))"

text \<open>
  The inner loop of \<open>revise\<close>: is there a word of \<open>y\<close>, other than \<open>word_x\<close> itself, that
  fits \<open>word_x\<close> at the overlap? The loop stops at the first one.
\<close>

fun revise_valid ::
  "crossword \<Rightarrow> variable \<Rightarrow> variable \<Rightarrow> string \<Rightarrow> string list \<Rightarrow> failure + bool" where
  "revise_valid cw x y word_x [] = Inr False"
| "revise_valid cw x y word_x (word_y # rest) =
     (if word_x = word_y then revise_valid cw x y word_x rest
      else
        (case check_overlap cw x y word_x word_y of
           Inl e \<Rightarrow> Inl e
         | Inr ok \<Rightarrow> if ok then Inr True else revise_valid cw x y word_x rest))"

text \<open>
  The outer loop of \<open>revise\<close> over the words of \<open>x\<close>; the result is the pair of \<open>revised\<close>
  and \<open>to_remove\<close>. \<open>self.domains[y]\<close> is read once for every word of \<open>x\<close>.
\<close>

fun revise_loop ::
  "crossword \<Rightarrow> creator \<Rightarrow> variable \<Rightarrow> variable \<Rightarrow> string list \<Rightarrow>
     failure + (bool \<times> string list)" where
  "revise_loop cw s x y [] = Inr (False, [])"
| "revise_loop cw s x y (word_x # rest) =
     (case get_domain s y of
        Inl e \<Rightarrow> Inl e
      | Inr dy \<Rightarrow>
          (case revise_valid cw x y word_x dy of
             Inl e \<Rightarrow> Inl e
           | Inr valid \<Rightarrow>
               (case revise_loop cw s x y rest of
                  Inl e \<Rightarrow> Inl e
                | Inr (revised, to_remove) \<Rightarrow>
                    if valid then Inr (revised, to_remove)
                    else Inr (True, word_x # to_remove))))"

definition revise ::
  "crossword \<Rightarrow> variable \<Rightarrow> variable \<Rightarrow> creator \<Rightarrow> failure + (bool \<times> creator)" where
  "revise cw x y s =
     (case get_domain s x of
        Inl e \<Rightarrow> Inl e
      | Inr dx \<Rightarrow>
          (case revise_loop cw s x y dx of
             Inl e \<Rightarrow> Inl e
           | Inr (revised, to_remove) \<Rightarrow>
               Inr (revised, set_domain s x (set_isub dx to_remove))))"

text \<open>
  The number of words in all the domains of the current dictionary. A call of \<open>revise\<close>
  that reports a revision makes it smaller, which is why the loop of \<open>ac3\<close> ends.
\<close>

definition dom_size :: "creator \<Rightarrow> nat" where
  "dom_size s = sum_list (map (\<lambda>p. length (snd p)) (store s (domains s)))"

lemma sum_dict_set:
  "map_of d k = Some ws \<Longrightarrow>
   sum_list (map (\<lambda>p. length (snd p)) (dict_set k ws' d)) + length ws
     = sum_list (map (\<lambda>p. length (snd p)) d) + length ws'"
  by (induction d) (auto split: if_splits)

lemma revise_loop_to_remove:
  "revise_loop cw s x y dx = Inr (revised, to_remove) \<Longrightarrow>
     set to_remove \<subseteq> set dx \<and> (revised \<longleftrightarrow> to_remove \<noteq> [])"
  by (induction dx arbitrary: revised to_remove)
     (auto split: sum.splits if_splits prod.splits)

lemma length_set_isub_le: "length (set_isub a b) \<le> length a"
  by (simp add: set_isub_def)

lemma length_set_isub_less:
  "b \<noteq> [] \<Longrightarrow> set b \<subseteq> set a \<Longrightarrow> length (set_isub a b) < length a"
  unfolding set_isub_def
  by (cases b) (auto intro!: length_filter_less[of _ a])

lemma set_isub_Nil [simp]: "set_isub a [] = a"
  by (simp add: set_isub_def)

lemma dom_size_set_domain:
  "get_domain s x = Inr ws \<Longrightarrow>
     dom_size (set_domain s x ws') + length ws = dom_size s + length ws'"
  by (auto simp: get_domain_def set_domain_def dom_size_def sum_dict_set split: option.splits)

lemma revise_dom_size_less:
  "revise cw x y s = Inr (True, s') \<Longrightarrow> dom_size s' < dom_size s"
proof -
  assume a: "revise cw x y s = Inr (True, s')"
  then obtain dx to_remove where dx: "get_domain s x = Inr dx"
    and rl: "revise_loop cw s x y dx = Inr (True, to_remove)"
    and s': "s' = set_domain s x (set_isub dx to_remove)"
    by (auto simp: revise_def split: sum.splits prod.splits)
  from revise_loop_to_remove[OF rl]
  have "to_remove \<noteq> []" "set to_remove \<subseteq> set dx" by auto
  then have "length (set_isub dx to_remove) < length dx" by (rule length_set_isub_less)
  with dom_size_set_domain[OF dx, of "set_isub dx to_remove"] s' show ?thesis by simp
qed

lemma revise_dom_size_le:
  "revise cw x y s = Inr (r, s') \<Longrightarrow> dom_size s' \<le> dom_size s"
proof -
  assume a: "revise cw x y s = Inr (r, s')"
  then obtain dx to_remove where dx: "get_domain s x = Inr dx"
    and s': "s' = set_domain s x (set_isub dx to_remove)"
    by (auto simp: revise_def split: sum.splits prod.splits)
  with dom_size_set_domain[OF dx, of "set_isub dx to_remove"] length_set_isub_le[of dx to_remove]
  show ?thesis by simp
qed

text \<open>
  The loop of \<open>ac3\<close> over the queue: \<open>popleft\<close> takes the head, \<open>append\<close> adds at the end.
\<close>

function ac3_loop ::
  "crossword \<Rightarrow> (variable \<times> variable) list \<Rightarrow> creator \<Rightarrow> failure + (bool \<times> creator)" where
  "ac3_loop cw [] s = Inr (True, s)"
| "ac3_loop cw ((x, y) # queue) s =
     (case revise cw x y s of
        Inl e \<Rightarrow> Inl e
      | Inr (revised, s') \<Rightarrow>
          if revised then
            (case get_domain s' x of
               Inl e \<Rightarrow> Inl e
             | Inr dx \<Rightarrow>
                 if dx = [] then Inr (False, s')
                 else ac3_loop cw
                        (queue @ map (\<lambda>neighbor. (neighbor, x))
                                   (filter (\<lambda>neighbor. neighbor \<noteq> y) (neighbors cw x))) s')
          else ac3_loop cw queue s')"
  by pat_completeness auto
termination
proof (relation "inv_image (less_than <*lex*> less_than)
                   (\<lambda>(cw, queue, s). (dom_size s, length queue))", goal_cases)
  case 1
  then show ?case by (intro wf_inv_image wf_lex_prod wf_less_than)
next
  case (2 cw x y queue s x2 x1 x2a x2b)
  then show ?case by (auto dest: revise_dom_size_less)
next
  case (3 cw x y queue s x2 x1 x2a)
  then show ?case using revise_dom_size_le[of cw x y s x1 x2a] by auto
qed

text \<open>
  Without an argument, \<open>ac3\<close> starts from the set of all arcs \<open>(var, neighbor)\<close>; the set
  keeps one copy of each arc. With an argument, the queue holds the arcs in the order given.
\<close>

definition all_arcs :: "crossword \<Rightarrow> (variable \<times> variable) list" where
  "all_arcs cw =
     remdups (concat (map (\<lambda>var. map (\<lambda>neighbor. (var, neighbor)) (neighbors cw var))
                          (variables cw)))"

definition ac3 ::
  "crossword \<Rightarrow> (variable \<times> variable) list option \<Rightarrow> creator \<Rightarrow>
     failure + (bool \<times> creator)" where
  "ac3 cw arcs s =
     (case arcs of
        None \<Rightarrow> ac3_loop cw (all_arcs cw) s
      | Some given \<Rightarrow> ac3_loop cw given s)"

subsection \<open>The backtracking search\<close>

definition assignment_complete :: "crossword \<Rightarrow> assignment \<Rightarrow> bool" where
  "assignment_complete cw a = (length (variables cw) = length a)"

text \<open>The loop of \<open>consistent\<close> over the neighbours of one assigned variable.\<close>

fun consistent_neighbors ::
  "crossword \<Rightarrow> assignment \<Rightarrow> variable \<Rightarrow> variable list \<Rightarrow> failure + bool" where
  "consistent_neighbors cw a var [] = Inr True"
| "consistent_neighbors cw a var (neighbor # rest) =
     (case map_of a neighbor of
        None \<Rightarrow> consistent_neighbors cw a var rest
      | Some word_n \<Rightarrow>
          (case map_of a var of
             None \<Rightarrow> Inl KeyError
           | Some word_v \<Rightarrow>
               (case check_overlap cw var neighbor word_v word_n of
                  Inl e \<Rightarrow> Inl e
                | Inr ok \<Rightarrow>
                    if ok then consistent_neighbors cw a var rest else Inr False)))"

text \<open>The loop of \<open>consistent\<close> over the items of the assignment, with the set \<open>used\<close>.\<close>

fun consistent_loop ::
  "crossword \<Rightarrow> assignment \<Rightarrow> string list \<Rightarrow> assignment \<Rightarrow> failure + bool" where
  "consistent_loop cw a used [] = Inr True"
| "consistent_loop cw a used ((var, value) # rest) =
     (if int (length value) \<noteq> var_length var \<or> value \<in> set used then Inr False
      else
        (case consistent_neighbors cw a var (neighbors cw var) of
           Inl e \<Rightarrow> Inl e
         | Inr ok \<Rightarrow>
             if ok then consistent_loop cw a (used @ [value]) rest else Inr False))"

definition consistent :: "crossword \<Rightarrow> assignment \<Rightarrow> failure + bool" where
  "consistent cw a = consistent_loop cw a [] a"

text \<open>
  \<open>order_domain_values\<close>: for every value of \<open>var\<close>, \<open>counts[value]\<close> is the number of
  words in the neighbours' domains that do not fit it; the values are then sorted by their
  count. Python's sort is stable, as \<open>sort_key\<close> is.
\<close>

fun count_neighbor_values ::
  "crossword \<Rightarrow> variable \<Rightarrow> variable \<Rightarrow> string \<Rightarrow> string list \<Rightarrow> failure + int" where
  "count_neighbor_values cw var neighbor value [] = Inr 0"
| "count_neighbor_values cw var neighbor value (neighbor_value # rest) =
     (case check_overlap cw var neighbor value neighbor_value of
        Inl e \<Rightarrow> Inl e
      | Inr ok \<Rightarrow>
          (case count_neighbor_values cw var neighbor value rest of
             Inl e \<Rightarrow> Inl e
           | Inr c \<Rightarrow> Inr (if ok then c else c + 1)))"

fun count_neighbors ::
  "crossword \<Rightarrow> creator \<Rightarrow> variable \<Rightarrow> string \<Rightarrow> variable list \<Rightarrow> failure + int" where
  "count_neighbors cw s var value [] = Inr 0"
| "count_neighbors cw s var value (neighbor # rest) =
     (case get_domain s neighbor of
        Inl e \<Rightarrow> Inl e
      | Inr dn \<Rightarrow>
          (case count_neighbor_values cw var neighbor value dn of
             Inl e \<Rightarrow> Inl e
           | Inr c \<Rightarrow>
               (case count_neighbors cw s var value rest of
                  Inl e \<Rightarrow> Inl e
                | Inr c' \<Rightarrow> Inr (c + c'))))"

fun count_values ::
  "crossword \<Rightarrow> creator \<Rightarrow> variable \<Rightarrow> string list \<Rightarrow> failure + (string \<times> int) list" where
  "count_values cw s var [] = Inr []"
| "count_values cw s var (value # rest) =
     (case count_neighbors cw s var value (neighbors cw var) of
        Inl e \<Rightarrow> Inl e
      | Inr c \<Rightarrow>
          (case count_values cw s var rest of
             Inl e \<Rightarrow> Inl e
           | Inr counts \<Rightarrow> Inr ((value, c) # counts)))"

definition order_domain_values ::
  "crossword \<Rightarrow> creator \<Rightarrow> variable \<Rightarrow> assignment \<Rightarrow> failure + string list" where
  "order_domain_values cw s var a =
     (case get_domain s var of
        Inl e \<Rightarrow> Inl e
      | Inr vals \<Rightarrow>
          (case count_values cw s var vals of
             Inl e \<Rightarrow> Inl e
           | Inr counts \<Rightarrow>
               Inr (sort_key (\<lambda>x. case map_of counts x of None \<Rightarrow> 0 | Some c \<Rightarrow> c) vals)))"

text \<open>
  \<open>select_unassigned_variable\<close>: the unassigned variables are sorted by the pair (size of the
  domain, minus the number of neighbours), compared lexicographically, and the first one is
  returned. \<open>list.sort\<close> computes the key of every element before it sorts.
\<close>

fun select_keys ::
  "crossword \<Rightarrow> creator \<Rightarrow> variable list \<Rightarrow> failure + (variable \<times> (int \<times> int)) list" where
  "select_keys cw s [] = Inr []"
| "select_keys cw s (x # rest) =
     (case get_domain s x of
        Inl e \<Rightarrow> Inl e
      | Inr dx \<Rightarrow>
          (case select_keys cw s rest of
             Inl e \<Rightarrow> Inl e
           | Inr keys \<Rightarrow>
               Inr ((x, (int (length dx), - int (length (neighbors cw x)))) # keys)))"

definition select_unassigned_variable ::
  "crossword \<Rightarrow> creator \<Rightarrow> assignment \<Rightarrow> failure + variable" where
  "select_unassigned_variable cw s a =
     (let valid = filter (\<lambda>var. map_of a var = None) (variables cw)
      in case select_keys cw s valid of
           Inl e \<Rightarrow> Inl e
         | Inr keys \<Rightarrow>
             (case map fst (sort_key snd keys) of
                [] \<Rightarrow> Inl IndexError
              | var # rest \<Rightarrow> Inr var))"

text \<open>
  \<open>if result:\<close> in \<open>backtrack\<close>: \<open>None\<close> and the empty dictionary count as false.
\<close>

fun truthy :: "assignment option \<Rightarrow> bool" where
  "truthy None = False"
| "truthy (Some a) = (a \<noteq> [])"

text \<open>
  \<open>backtrack\<close> and the loop over the ordered values of the selected variable
  (\<open>try_values\<close>). The assignment is one dictionary object shared by all the calls, so it is
  passed in and handed back; the result is the triple of the returned value, the assignment
  as the call leaves it, and the creator. The first argument bounds the depth of the
  recursion.
\<close>

fun backtrack ::
  "nat \<Rightarrow> crossword \<Rightarrow> assignment \<Rightarrow> creator \<Rightarrow>
     failure + (assignment option \<times> assignment \<times> creator)"
and try_values ::
  "nat \<Rightarrow> crossword \<Rightarrow> variable \<Rightarrow> nat \<Rightarrow> string list \<Rightarrow> assignment \<Rightarrow> creator \<Rightarrow>
     failure + (assignment option \<times> assignment \<times> creator)" where
  "backtrack 0 cw a s = Inl OutOfFuel"
| "backtrack (Suc n) cw a s =
     (let s0 = s\<lparr>bt_calls := bt_calls s + 1\<rparr> in
      if assignment_complete cw a then Inr (Some a, a, s0)
      else
        (case select_unassigned_variable cw s0 a of
           Inl e \<Rightarrow> Inl e
         | Inr var \<Rightarrow>
             (case deepcopy_domains s0 of
                (prev_domains, s1) \<Rightarrow>
                  (case order_domain_values cw s1 var a of
                     Inl e \<Rightarrow> Inl e
                   | Inr vals \<Rightarrow> try_values n cw var prev_domains vals a s1))))"
| "try_values n cw var prev_domains [] a s = Inr (None, a, s)"
| "try_values n cw var prev_domains (value # rest) a s =
     (case consistent cw a of
        Inl e \<Rightarrow> Inl e
      | Inr ok \<Rightarrow>
          if ok then
            (case ac3 cw (Some (map (\<lambda>neighbor. (neighbor, var)) (neighbors cw var)))
                    (set_domain s var [value]) of
               Inl e \<Rightarrow> Inl e
             | Inr (arc_consistent, s2) \<Rightarrow>
                 (case backtrack n cw (dict_set var value a) s2 of
                    Inl e \<Rightarrow> Inl e
                  | Inr (result, a3, s3) \<Rightarrow>
                      if truthy result then Inr (result, a3, s3)
                      else
                        (case dict_del var a3 of
                           Inl e \<Rightarrow> Inl e
                         | Inr a4 \<Rightarrow>
                             try_values n cw var prev_domains rest a4
                               (s3\<lparr>domains := prev_domains\<rparr>))))
          else try_values n cw var prev_domains rest a s)"

text \<open>\<open>solve\<close>: the value of \<open>ac3\<close> is not used.\<close>

definition solve ::
  "nat \<Rightarrow> crossword \<Rightarrow> creator \<Rightarrow> failure + (assignment option \<times> assignment \<times> creator)" where
  "solve n cw s =
     (case enforce_node_consistency s of
        Inl e \<Rightarrow> Inl e
      | Inr s1 \<Rightarrow>
          (case ac3 cw None s1 of
             Inl e \<Rightarrow> Inl e
           | Inr (arc_consistent, s2) \<Rightarrow> backtrack n cw [] s2))"

text \<open>What a call returns to its caller, without the state it leaves behind.\<close>

definition returned ::
  "failure + (assignment option \<times> assignment \<times> creator) \<Rightarrow> failure + assignment option" where
  "returned r = (case r of Inl e \<Rightarrow> Inl e | Inr (result, a, s) \<Rightarrow> Inr result)"

subsection \<open>Notions used in the statements\<close>

text \<open>The keys of the dictionary \<open>self.domains\<close>, in their order.\<close>

definition domain_keys :: "creator \<Rightarrow> variable list" where
  "domain_keys s = map fst (store s (domains s))"

text \<open>
  A word \<open>w\<close> of \<open>x\<close> is supported by the domain \<open>dy\<close> of \<open>y\<close> when \<open>dy\<close> holds a word other
  than \<open>w\<close> for which \<open>check_overlap\<close> answers \<open>True\<close>.
\<close>

definition supported ::
  "crossword \<Rightarrow> variable \<Rightarrow> variable \<Rightarrow> string list \<Rightarrow> string \<Rightarrow> bool" where
  "supported cw x y dy w =
     (\<exists>w'\<in>set dy. w' \<noteq> w \<and> check_overlap cw x y w w' = Inr True)"

subsection \<open>Example crosswords\<close>

text \<open>The constructor \<open>Variable(i, j, direction, length)\<close>.\<close>

definition Variable :: "int \<Rightarrow> int \<Rightarrow> direction \<Rightarrow> int \<Rightarrow> variable" where
  "Variable r c d n = \<lparr>var_i = r, var_j = c, var_direction = d, var_length = n\<rparr>"

text \<open>
  Two rows of three cells with an empty row between them, and the single word CAT. The
  slots share no cell: each pair of distinct variables has the overlap \<open>None\<close>, and no
  variable has a neighbour.
\<close>

definition two_rows :: crossword where
  "two_rows =
     \<lparr>variables = [Variable 0 0 ACROSS 3, Variable 2 0 ACROSS 3],
      words = [''CAT''],
      overlaps = (\<lambda>(x, y). if x = y then None else Some None),
      neighbors = (\<lambda>x. [])\<rparr>"

text \<open>
  An ACROSS slot of length 3 in row 0 and a DOWN slot of length 3 in column 1: the second
  letter of the ACROSS word is the first letter of the DOWN word.
\<close>

definition crossing :: crossword where
  "crossing =
     \<lparr>variables = [Variable 0 0 ACROSS 3, Variable 0 1 DOWN 3],
      words = [''CAT'', ''CAR'', ''ART'', ''TREE''],
      overlaps = (\<lambda>(x, y).
         if x = Variable 0 0 ACROSS 3 \<and> y = Variable 0 1 DOWN 3 then Some (Some (1, 0))
         else if x = Variable 0 1 DOWN 3 \<and> y = Variable 0 0 ACROSS 3 then Some (Some (0, 1))
         else None),
      neighbors = (\<lambda>x.
         if x = Variable 0 0 ACROSS 3 then [Variable 0 1 DOWN 3]
         else if x = Variable 0 1 DOWN 3 then [Variable 0 0 ACROSS 3]
         else [])\<rparr>"

text \<open>
  An ACROSS slot in row 0 and two DOWN slots in columns 0 and 2 that start in that row: the
  first and last letters of the ACROSS word begin the two DOWN words.
\<close>

definition comb :: crossword where
  "comb =
     \<lparr>variables = [Variable 0 0 ACROSS 3, Variable 0 0 DOWN 3, Variable 0 2 DOWN 3],
      words = [''CAT'', ''COW'', ''TEA'', ''WAR'', ''ACE''],
      overlaps = (\<lambda>(x, y).
         if x = Variable 0 0 ACROSS 3 \<and> y = Variable 0 0 DOWN 3 then Some (Some (0, 0))
         else if x = Variable 0 0 DOWN 3 \<and> y = Variable 0 0 ACROSS 3 then Some (Some (0, 0))
         else if x = Variable 0 0 ACROSS 3 \<and> y = Variable 0 2 DOWN 3 then Some (Some (2, 0))
         else if x = Variable 0 2 DOWN 3 \<and> y = Variable 0 0 ACROSS 3 then Some (Some (0, 2))
         else if x = y then None
         else Some None),
      neighbors = (\<lambda>x.
         if x = Variable 0 0 ACROSS 3 then [Variable 0 0 DOWN 3, Variable 0 2 DOWN 3]
         else if x = Variable 0 0 DOWN 3 then [Variable 0 0 ACROSS 3]
         else if x = Variable 0 2 DOWN 3 then [Variable 0 0 ACROSS 3]
         else [])\<rparr>"

text \<open>
  An ACROSS and a DOWN slot that share their first cell, with two words that do not share
  their first letter.
\<close>

definition clash :: crossword where
  "clash =
     \<lparr>variables = [Variable 0 0 ACROSS 3, Variable 0 0 DOWN 3],
      words = [''CAT'', ''DOG''],
      overlaps = (\<lambda>(x, y).
         if x = Variable 0 0 ACROSS 3 \<and> y = Variable 0 0 DOWN 3 then Some (Some (0, 0))
         else if x = Variable 0 0 DOWN 3 \<and> y = Variable 0 0 ACROSS 3 then Some (Some (0, 0))
         else None),
      neighbors = (\<lambda>x.
         if x = Variable 0 0 ACROSS 3 then [Variable 0 0 DOWN 3]
         else if x = Variable 0 0 DOWN 3 then [Variable 0 0 ACROSS 3]
         else [])\<rparr>"

text \<open>Four rows of three cells that share no cell, and two words.\<close>

definition four_rows :: crossword where
  "four_rows =
     \<lparr>variables = [Variable 0 0 ACROSS 3, Variable 2 0 ACROSS 3,
                  Variable 4 0 ACROSS 3, Variable 6 0 ACROSS 3],
      words = [''CAT'', ''DOG''],
      overlaps = (\<lambda>(x, y). if x = y then None else Some None),
      neighbors = (\<lambda>x. [])\<rparr>"

section \<open>Properties\<close>

subsection \<open>Dictionaries and domains\<close>

lemma map_of_dict_set: "map_of (dict_set k v d) = (map_of d)(k \<mapsto> v)"
  by (induction d) (auto simp: fun_eq_iff)

lemma keys_dict_set: "k \<in> fst ` set d \<Longrightarrow> map fst (dict_set k v d) = map fst d"
  by (induction d) auto

lemma dict_set_same: "map_of d k = Some v \<Longrightarrow> dict_set k v d = d"
  by (induction d) (auto split: if_splits)

lemma get_domain_set_domain:
  "get_domain (set_domain s v ws) u = (if u = v then Inr ws else get_domain s u)"
  by (simp add: get_domain_def set_domain_def map_of_dict_set)

lemma get_domain_keys: "get_domain s v = Inr ws \<Longrightarrow> v \<in> set (domain_keys s)"
  by (auto simp: get_domain_def domain_keys_def split: option.splits dest: map_of_SomeD intro: rev_image_eqI)

lemma keys_get_domain: "v \<in> set (domain_keys s) \<Longrightarrow> \<exists>ws. get_domain s v = Inr ws"
  by (auto simp: get_domain_def domain_keys_def map_of_eq_None_iff split: option.splits)

lemma domain_keys_set_domain:
  "get_domain s v = Inr ws \<Longrightarrow> domain_keys (set_domain s v ws') = domain_keys s"
  using get_domain_keys[of s v ws]
  by (simp add: domain_keys_def set_domain_def keys_dict_set)

lemma set_domain_fields [simp]:
  "domains (set_domain s v ws) = domains s"
  "fresh (set_domain s v ws) = fresh s"
  "bt_calls (set_domain s v ws) = bt_calls s"
  by (simp_all add: set_domain_def)

lemma set_domain_same: "get_domain s v = Inr ws \<Longrightarrow> set_domain s v ws = s"
  by (auto simp: get_domain_def set_domain_def dict_set_same split: option.splits)

lemma set_isub_filter_not:
  "set_isub ws (filter (\<lambda>w. \<not> P w) ws) = filter P ws"
  unfolding set_isub_def by (rule filter_cong) auto

lemma node_loop_result:
  "set vars \<subseteq> set (domain_keys s) \<Longrightarrow>
   \<exists>s'. node_loop vars s = Inr s' \<and> domain_keys s' = domain_keys s
     \<and> domains s' = domains s \<and> fresh s' = fresh s \<and> bt_calls s' = bt_calls s
     \<and> (\<forall>v ws. get_domain s v = Inr ws \<longrightarrow>
           get_domain s' v =
             Inr (if v \<in> set vars then filter (\<lambda>w. int (length w) = var_length v) ws else ws))"
proof (induction vars arbitrary: s)
  case Nil
  then show ?case by simp
next
  case (Cons var vars)
  from Cons.prems obtain ws where ws: "get_domain s var = Inr ws"
    using keys_get_domain[of var s] by auto
  let ?f = "\<lambda>v. filter (\<lambda>w. int (length w) = var_length v)"
  let ?s1 = "set_domain s var (?f var ws)"
  have k1: "domain_keys ?s1 = domain_keys s" using ws by (rule domain_keys_set_domain)
  with Cons.prems have "set vars \<subseteq> set (domain_keys ?s1)" by simp
  from Cons.IH[OF this] obtain s' where s': "node_loop vars ?s1 = Inr s'"
    "domain_keys s' = domain_keys ?s1" "domains s' = domains ?s1" "fresh s' = fresh ?s1"
    "bt_calls s' = bt_calls ?s1"
    and g: "\<And>v ws. get_domain ?s1 v = Inr ws \<Longrightarrow>
           get_domain s' v = Inr (if v \<in> set vars then ?f v ws else ws)"
    by blast
  have step: "node_loop (var # vars) s = Inr s'"
    using ws s'(1) by (simp add: set_isub_filter_not[where P="\<lambda>w. int (length w) = var_length var"])
  have "get_domain s' v = Inr (if v \<in> set (var # vars) then ?f v ws' else ws')"
    if "get_domain s v = Inr ws'" for v ws'
  proof (cases "v = var")
    case True
    then have "ws' = ws" using that ws by simp
    moreover have "get_domain ?s1 var = Inr (?f var ws)" by (simp add: get_domain_set_domain)
    ultimately show ?thesis using g[of var "?f var ws"] True by simp
  next
    case False
    then have "get_domain ?s1 v = Inr ws'" using that by (simp add: get_domain_set_domain)
    from g[OF this] False show ?thesis by simp
  qed
  with step s'(2-5) k1 show ?case by simp
qed

lemma enforce_node_consistency_result:
  "\<exists>s'. enforce_node_consistency s = Inr s' \<and> domain_keys s' = domain_keys s
     \<and> domains s' = domains s \<and> fresh s' = fresh s \<and> bt_calls s' = bt_calls s
     \<and> (\<forall>v ws. get_domain s v = Inr ws \<longrightarrow>
           get_domain s' v = Inr (filter (\<lambda>w. int (length w) = var_length v) ws))"
proof -
  have "set (domain_keys s) \<subseteq> set (domain_keys s)" by simp
  from node_loop_result[OF this] obtain s' where s': "node_loop (domain_keys s) s = Inr s'"
    "domain_keys s' = domain_keys s" "domains s' = domains s" "fresh s' = fresh s" "bt_calls s' = bt_calls s"
    and g: "\<And>v ws. get_domain s v = Inr ws \<Longrightarrow>
           get_domain s' v = Inr (if v \<in> set (domain_keys s) then filter (\<lambda>w. int (length w) = var_length v) ws else ws)"
    by blast
  have "get_domain s' v = Inr (filter (\<lambda>w. int (length w) = var_length v) ws)"
    if "get_domain s v = Inr ws" for v ws
    using g[OF that] get_domain_keys[OF that] by simp
  with s' show ?thesis by (auto simp: enforce_node_consistency_def domain_keys_def)
qed

lemma node_loop_fixed:
  "(\<And>v. v \<in> set vars \<Longrightarrow> \<exists>ws. get_domain s v = Inr ws \<and> (\<forall>w\<in>set ws. int (length w) = var_length v))
   \<Longrightarrow> node_loop vars s = Inr s"
proof (induction vars)
  case Nil
  then show ?case by simp
next
  case (Cons var vars)
  from Cons.prems[of var] obtain ws where ws: "get_domain s var = Inr ws"
    and len: "\<forall>w\<in>set ws. int (length w) = var_length var" by auto
  have "filter (\<lambda>w. int (length w) = var_length var) ws = ws" using len by simp
  then have "set_domain s var (set_isub ws (filter (\<lambda>w. int (length w) \<noteq> var_length var) ws)) = s"
    using set_domain_same[OF ws] by (simp add: set_isub_filter_not[where P="\<lambda>w. int (length w) = var_length var"])
  moreover have "node_loop vars s = Inr s" using Cons by simp
  ultimately show ?case using ws by simp
qed

lemma enforce_node_consistency_twice:
  assumes "enforce_node_consistency s = Inr s1"
  shows "enforce_node_consistency s1 = Inr s1"
proof -
  from enforce_node_consistency_result[of s] assms
  have g: "\<And>v ws. get_domain s v = Inr ws \<Longrightarrow>
           get_domain s1 v = Inr (filter (\<lambda>w. int (length w) = var_length v) ws)"
    and k: "domain_keys s1 = domain_keys s" by auto
  have "\<exists>ws. get_domain s1 v = Inr ws \<and> (\<forall>w\<in>set ws. int (length w) = var_length v)"
    if "v \<in> set (domain_keys s1)" for v
  proof -
    from that k obtain ws where "get_domain s v = Inr ws" using keys_get_domain[of v s] by auto
    from g[OF this] show ?thesis by auto
  qed
  from node_loop_fixed[of "domain_keys s1" s1, OF this]
  show ?thesis by (simp add: enforce_node_consistency_def domain_keys_def)
qed

subsection \<open>revise and ac3\<close>

lemma check_overlap_none:
  "overlaps cw (x, y) = Some None \<Longrightarrow> check_overlap cw x y w w' = Inr True"
  by (simp add: check_overlap_def)

lemma check_overlap_offsets:
  "overlaps cw (x, y) = Some (Some (i, j)) \<Longrightarrow> 0 \<le> i \<Longrightarrow> i < int (length w) \<Longrightarrow>
   0 \<le> j \<Longrightarrow> j < int (length w') \<Longrightarrow>
   check_overlap cw x y w w' = Inr (w ! nat i = w' ! nat j)"
  by (simp add: check_overlap_def py_index_def)



lemma revise_valid_iff:
  "revise_valid cw x y w dy = Inr b \<Longrightarrow> b = supported cw x y dy w"
  unfolding supported_def
  by (induction dy) (auto split: if_splits sum.splits)

lemma revise_loop_result:
  "revise_loop cw s x y dx = Inr (revised, to_remove) \<Longrightarrow> get_domain s y = Inr dy \<Longrightarrow>
     to_remove = filter (\<lambda>w. \<not> supported cw x y dy w) dx \<and> revised = (to_remove \<noteq> [])"
proof (induction dx arbitrary: revised to_remove)
  case Nil
  then show ?case by simp
next
  case (Cons w dx)
  from Cons.prems obtain valid r t where
    v: "revise_valid cw x y w dy = Inr valid" and
    rl: "revise_loop cw s x y dx = Inr (r, t)" and
    res: "(revised, to_remove) = (if valid then (r, t) else (True, w # t))"
    by (auto split: sum.splits if_splits)
  from Cons.IH[OF rl Cons.prems(2)] have t: "t = filter (\<lambda>w. \<not> supported cw x y dy w) dx"
    and r: "r = (t \<noteq> [])" by auto
  from revise_valid_iff[OF v] have "valid = supported cw x y dy w" .
  with t r res show ?case by (auto split: if_splits)
qed

lemma revise_result:
  assumes "revise cw x y s = Inr (revised, s')" and "get_domain s x = Inr dx"
    and "get_domain s y = Inr dy"
  shows "s' = set_domain s x (filter (supported cw x y dy) dx)"
    and "revised = (\<exists>w\<in>set dx. \<not> supported cw x y dy w)"
proof -
  from assms(1,2) obtain to_remove where
    rl: "revise_loop cw s x y dx = Inr (revised, to_remove)" and
    s': "s' = set_domain s x (set_isub dx to_remove)"
    by (auto simp: revise_def split: sum.splits prod.splits)
  from revise_loop_result[OF rl assms(3)]
  have t: "to_remove = filter (\<lambda>w. \<not> supported cw x y dy w) dx" and r: "revised = (to_remove \<noteq> [])"
    by auto
  show "s' = set_domain s x (filter (supported cw x y dy) dx)"
    using s' t by (simp add: set_isub_filter_not)
  show "revised = (\<exists>w\<in>set dx. \<not> supported cw x y dy w)"
    using r t by (auto simp: filter_empty_conv)
qed

lemma revise_shape:
  assumes "revise cw x y s = Inr (revised, s')"
  shows "\<exists>dx dx'. get_domain s x = Inr dx \<and> s' = set_domain s x dx' \<and> set dx' \<subseteq> set dx
           \<and> (revised \<longrightarrow> dx \<noteq> [])"
proof -
  from assms obtain dx to_remove where dx: "get_domain s x = Inr dx" and
    rl: "revise_loop cw s x y dx = Inr (revised, to_remove)" and
    s': "s' = set_domain s x (set_isub dx to_remove)"
    by (auto simp: revise_def split: sum.splits prod.splits)
  have "set (set_isub dx to_remove) \<subseteq> set dx" by (auto simp: set_isub_def)
  moreover have "revised \<longrightarrow> dx \<noteq> []" using revise_loop_to_remove[OF rl] by auto
  ultimately show ?thesis using dx s' by blast
qed

lemma revise_mono:
  assumes "revise cw x y s = Inr (revised, s')"
  shows "domain_keys s' = domain_keys s" and "domains s' = domains s"
    and "fresh s' = fresh s" and "bt_calls s' = bt_calls s"
    and "get_domain s v = Inr ws \<Longrightarrow> \<exists>ws'. get_domain s' v = Inr ws' \<and> set ws' \<subseteq> set ws"
    and "v \<noteq> x \<Longrightarrow> get_domain s' v = get_domain s v"
proof -
  from revise_shape[OF assms] obtain dx dx' where dx: "get_domain s x = Inr dx"
    and s': "s' = set_domain s x dx'" and sub: "set dx' \<subseteq> set dx" by blast
  show "domain_keys s' = domain_keys s" using s' domain_keys_set_domain[OF dx] by simp
  show "domains s' = domains s" "fresh s' = fresh s" "bt_calls s' = bt_calls s" using s' by simp_all
  show "\<exists>ws'. get_domain s' v = Inr ws' \<and> set ws' \<subseteq> set ws" if "get_domain s v = Inr ws"
    using that dx sub s' by (cases "v = x") (auto simp: get_domain_set_domain)
  show "get_domain s' v = get_domain s v" if "v \<noteq> x"
    using that s' by (simp add: get_domain_set_domain)
qed

lemma ac3_loop_mono:
  "ac3_loop cw queue s = Inr (ok, s') \<Longrightarrow>
     domain_keys s' = domain_keys s \<and> domains s' = domains s \<and> fresh s' = fresh s
     \<and> bt_calls s' = bt_calls s
     \<and> (\<forall>v ws. get_domain s v = Inr ws \<longrightarrow> (\<exists>ws'. get_domain s' v = Inr ws' \<and> set ws' \<subseteq> set ws))"
proof (induction cw queue s rule: ac3_loop.induct)
  case (1 cw s)
  then show ?case by simp
next
  case (2 cw x y queue s)
  from "2.prems" obtain revised s1 where rv: "revise cw x y s = Inr (revised, s1)"
    by (auto split: sum.splits)
  note m = revise_mono[OF rv]
  show ?case
  proof (cases revised)
    case False
    with "2.prems" rv have "ac3_loop cw queue s1 = Inr (ok, s')" by simp
    from "2.IH"(2)[OF rv refl False this] m show ?thesis
      by (metis (no_types, lifting) subset_trans)
  next
    case True
    with "2.prems" rv obtain dx where dx: "get_domain s1 x = Inr dx"
      by (auto split: sum.splits)
    show ?thesis
    proof (cases "dx = []")
      case True
      with \<open>revised\<close> "2.prems" rv dx have "s' = s1" by simp
      with m show ?thesis by blast
    next
      case False
      with \<open>revised\<close> "2.prems" rv dx
      have "ac3_loop cw (queue @ map (\<lambda>neighbor. (neighbor, x))
                 (filter (\<lambda>neighbor. neighbor \<noteq> y) (neighbors cw x))) s1 = Inr (ok, s')"
        by simp
      from "2.IH"(1)[OF rv refl \<open>revised\<close> dx False this] m show ?thesis
        by (metis (no_types, lifting) subset_trans)
    qed
  qed
qed

text \<open>A domain that is not empty at the start is empty at the end only if ac3 failed.\<close>

lemma ac3_loop_true:
  "ac3_loop cw queue s = Inr (True, s') \<Longrightarrow> get_domain s v = Inr ws \<Longrightarrow> ws \<noteq> [] \<Longrightarrow>
     get_domain s' v \<noteq> Inr []"
proof (induction cw queue s arbitrary: ws rule: ac3_loop.induct)
  case (1 cw s)
  then show ?case by auto
next
  case (2 cw x y queue s)
  from "2.prems"(1) obtain revised s1 where rv: "revise cw x y s = Inr (revised, s1)"
    by (auto split: sum.splits)
  note m = revise_mono[OF rv]
  show ?case
  proof (cases revised)
    case False
    with "2.prems" rv have l: "ac3_loop cw queue s1 = Inr (True, s')" by simp
    from revise_loop_to_remove have "s1 = s"
      using rv False
      by (auto simp: revise_def set_domain_same split: sum.splits prod.splits
               dest!: revise_loop_to_remove)
    with "2.IH"(2)[OF rv refl False l] "2.prems" show ?thesis by simp
  next
    case True
    with "2.prems" rv obtain dx where dx: "get_domain s1 x = Inr dx"
      by (auto split: sum.splits)
    with True "2.prems" rv have ne: "dx \<noteq> []" by (auto split: if_splits)
    with True "2.prems" rv dx
    have l: "ac3_loop cw (queue @ map (\<lambda>neighbor. (neighbor, x))
                 (filter (\<lambda>neighbor. neighbor \<noteq> y) (neighbors cw x))) s1 = Inr (True, s')"
      by simp
    obtain ws1 where ws1: "get_domain s1 v = Inr ws1" "ws1 \<noteq> []"
    proof (cases "v = x")
      case True
      with dx ne that show ?thesis by simp
    next
      case False
      with m(6)[of v] "2.prems" that show ?thesis by simp
    qed
    from "2.IH"(1)[OF rv refl True dx ne l ws1] show ?thesis .
  qed
qed

lemma ac3_loop_false_within:
  "ac3_loop cw queue s = Inr (False, s') \<Longrightarrow> fst ` set queue \<subseteq> V \<Longrightarrow>
   (\<And>v. v \<in> V \<Longrightarrow> set (neighbors cw v) \<subseteq> V) \<Longrightarrow>
     \<exists>x ws. x \<in> V \<and> get_domain s x = Inr ws \<and> ws \<noteq> [] \<and> get_domain s' x = Inr []"
proof (induction cw queue s rule: ac3_loop.induct)
  case (1 cw s)
  then show ?case by simp
next
  case (2 cw x y queue s)
  from "2.prems"(1) obtain revised s1 where rv: "revise cw x y s = Inr (revised, s1)"
    by (auto split: sum.splits)
  note m = revise_mono[OF rv]
  from "2.prems"(2) have xV: "x \<in> V" and qV: "fst ` set queue \<subseteq> V" by auto
  from revise_shape[OF rv] obtain dx0 where dx0: "get_domain s x = Inr dx0"
    "revised \<longrightarrow> dx0 \<noteq> []" by blast
  have prior: "\<exists>ws. get_domain s z = Inr ws \<and> ws \<noteq> []"
    if "get_domain s1 z = Inr ws1" "ws1 \<noteq> []" for z ws1
  proof -
    from that(1) have "z \<in> set (domain_keys s)" using get_domain_keys m(1) by metis
    then obtain ws where ws: "get_domain s z = Inr ws" using keys_get_domain by blast
    from m(5)[OF ws] that show ?thesis using ws by auto
  qed
  show ?case
  proof (cases revised)
    case False
    with "2.prems" rv have l: "ac3_loop cw queue s1 = Inr (False, s')" by simp
    from "2.IH"(2)[OF rv refl False l qV "2.prems"(3)] obtain z ws1 where
      z: "z \<in> V" "get_domain s1 z = Inr ws1" "ws1 \<noteq> []" "get_domain s' z = Inr []"
      by blast
    from prior[OF z(2,3)] z show ?thesis by auto
  next
    case True
    with "2.prems" rv obtain dx where dx: "get_domain s1 x = Inr dx"
      by (auto split: sum.splits)
    show ?thesis
    proof (cases "dx = []")
      case e: True
      with True "2.prems" rv dx have "s' = s1" by simp
      with dx e dx0 True xV show ?thesis by auto
    next
      case False
      let ?q = "queue @ map (\<lambda>neighbor. (neighbor, x))
                 (filter (\<lambda>neighbor. neighbor \<noteq> y) (neighbors cw x))"
      from True False "2.prems" rv dx
      have l: "ac3_loop cw ?q s1 = Inr (False, s')" by simp
      have "fst ` set ?q \<subseteq> V" using qV "2.prems"(3)[OF xV] by auto
      from "2.IH"(1)[OF rv refl True dx False l this "2.prems"(3)] obtain z ws1 where
        z: "z \<in> V" "get_domain s1 z = Inr ws1" "ws1 \<noteq> []" "get_domain s' z = Inr []"
        by blast
      with prior[OF z(2,3)] show ?thesis by blast
    qed
  qed
qed

lemma ac3_loop_false:
  assumes "ac3_loop cw queue s = Inr (False, s')"
  shows "\<exists>x ws. get_domain s x = Inr ws \<and> ws \<noteq> [] \<and> get_domain s' x = Inr []"
  using ac3_loop_false_within[OF assms, of UNIV] by auto


lemma revise_total:
  assumes "get_domain s x = Inr dx" and "get_domain s y = Inr dy"
    and "\<And>w w'. w \<in> set dx \<Longrightarrow> w' \<in> set dy \<Longrightarrow> w \<noteq> w' \<Longrightarrow>
           \<exists>b. check_overlap cw x y w w' = Inr b"
  shows "\<exists>revised s'. revise cw x y s = Inr (revised, s')"
proof -
  have v: "\<exists>b. revise_valid cw x y w ws = Inr b" if "w \<in> set dx" "set ws \<subseteq> set dy" for w ws
    using that(2)
  proof (induction ws)
    case Nil
    then show ?case by auto
  next
    case (Cons w' ws)
    then obtain b where b: "revise_valid cw x y w ws = Inr b" by auto
    show ?case
    proof (cases "w = w'")
      case True
      with b show ?thesis by simp
    next
      case False
      with assms(3)[of w w'] that(1) Cons.prems obtain c where
        "check_overlap cw x y w w' = Inr c" by auto
      with b False show ?thesis by auto
    qed
  qed
  have "\<exists>r t. revise_loop cw s x y ws = Inr (r, t)" if "set ws \<subseteq> set dx" for ws
    using that
  proof (induction ws)
    case Nil
    then show ?case by auto
  next
    case (Cons w ws)
    then obtain r t where "revise_loop cw s x y ws = Inr (r, t)" by auto
    moreover obtain b where "revise_valid cw x y w dy = Inr b"
      using v[of w dy] Cons.prems by auto
    ultimately show ?case using assms(2) by auto
  qed
  from this[of dx] assms(1) show ?thesis by (auto simp: revise_def)
qed

lemma ac3_loop_ok_iff:
  assumes "ac3_loop cw queue s = Inr (ok, s')"
  shows "ok \<longleftrightarrow> \<not> (\<exists>v ws. get_domain s v = Inr ws \<and> ws \<noteq> [] \<and> get_domain s' v = Inr [])"
proof (cases ok)
  case True
  with assms have "ac3_loop cw queue s = Inr (True, s')" by simp
  from ac3_loop_true[OF this] True show ?thesis by blast
next
  case False
  with assms have "ac3_loop cw queue s = Inr (False, s')" by simp
  from ac3_loop_false[OF this] False show ?thesis by blast
qed

subsection \<open>The search\<close>

lemma dict_set_fresh: "map_of d k = None \<Longrightarrow> dict_set k v d = d @ [(k, v)]"
  by (induction d) (auto split: if_splits)

lemma dict_del_dict_set:
  "map_of a var = None \<Longrightarrow> dict_del var (dict_set var value a) = Inr a"
proof -
  assume n: "map_of a var = None"
  then have "\<forall>p\<in>set a. fst p \<noteq> var"
    by (metis map_of_eq_None_iff image_eqI)
  then have "filter (\<lambda>p. fst p \<noteq> var) a = a" by simp
  with n show ?thesis by (simp add: dict_del_def dict_set_fresh map_add_def)
qed

lemma select_keys_fst: "select_keys cw s xs = Inr keys \<Longrightarrow> map fst keys = xs"
  by (induction xs arbitrary: keys) (auto split: sum.splits)

lemma select_keys_snd:
  "select_keys cw s xs = Inr keys \<Longrightarrow> (x, k) \<in> set keys \<Longrightarrow>
     \<exists>dx. get_domain s x = Inr dx \<and> k = (int (length dx), - int (length (neighbors cw x)))"
  by (induction xs arbitrary: keys) (auto split: sum.splits)

lemma select_unassigned_variable_unassigned:
  assumes "select_unassigned_variable cw s a = Inr var"
  shows "var \<in> set (variables cw)" and "map_of a var = None"
proof -
  let ?valid = "filter (\<lambda>var. map_of a var = None) (variables cw)"
  from assms obtain keys rest where k: "select_keys cw s ?valid = Inr keys"
    and h: "map fst (sort_key snd keys) = var # rest"
    by (auto simp: select_unassigned_variable_def split: sum.splits list.splits)
  have "set (map fst (sort_key snd keys)) = set (map fst keys)" by simp
  with h select_keys_fst[OF k] have "var \<in> set ?valid" by auto
  then show "var \<in> set (variables cw)" and "map_of a var = None" by auto
qed

lemma backtrack_try_values_restore:
  "(backtrack n cw a s = Inr (r, a', s') \<longrightarrow> \<not> truthy r \<longrightarrow> a' = a)"
  "(try_values n cw var prev vals a s = Inr (r, a', s') \<longrightarrow> map_of a var = None \<longrightarrow>
      \<not> truthy r \<longrightarrow> a' = a)"
proof (induction n cw a s and n cw var prev vals a s arbitrary: r a' s' and r a' s'
       rule: backtrack_try_values.induct)
  case (1 cw a s)
  then show ?case by simp
next
  case (2 n cw a s)
  show ?case
  proof (intro impI)
    assume b: "backtrack (Suc n) cw a s = Inr (r, a', s')" and t: "\<not> truthy r"
    let ?s0 = "s\<lparr>bt_calls := bt_calls s + 1\<rparr>"
    show "a' = a"
    proof (cases "assignment_complete cw a")
      case True
      with b show ?thesis by (simp add: Let_def)
    next
      case False
      with b obtain var where sv: "select_unassigned_variable cw ?s0 a = Inr var"
        by (auto simp: Let_def split: sum.splits)
      obtain prev s1 where dc: "deepcopy_domains ?s0 = (prev, s1)" by (cases "deepcopy_domains ?s0")
      from b False sv dc obtain vals where ov: "order_domain_values cw s1 var a = Inr vals"
        and tv: "try_values n cw var prev vals a s1 = Inr (r, a', s')"
        by (auto simp: Let_def split: sum.splits)
      from "2.IH"[OF refl False sv dc[symmetric] ov] tv t
        select_unassigned_variable_unassigned(2)[OF sv]
      show ?thesis by blast
    qed
  qed
next
  case (3 n cw var prev_domains a s)
  then show ?case by simp
next
  case (4 n cw var prev_domains "value" rest a s)
  show ?case
  proof (intro impI)
    assume tv: "try_values n cw var prev_domains (value # rest) a s = Inr (r, a', s')"
      and un: "map_of a var = None" and t: "\<not> truthy r"
    from tv obtain ok where c: "consistent cw a = Inr ok" by (auto split: sum.splits)
    show "a' = a"
    proof (cases ok)
      case False
      with tv c have "try_values n cw var prev_domains rest a s = Inr (r, a', s')" by simp
      with "4.IH"(3)[OF c False] un t show ?thesis by blast
    next
      case True
      with tv c obtain arc s2 where
        a3: "ac3 cw (Some (map (\<lambda>neighbor. (neighbor, var)) (neighbors cw var)))
               (set_domain s var [value]) = Inr (arc, s2)"
        by (auto split: sum.splits)
      with tv c True obtain result a3 s3 where
        bt: "backtrack n cw (dict_set var value a) s2 = Inr (result, a3, s3)"
        by (auto split: sum.splits)
      have nt: "\<not> truthy result"
      proof
        assume "truthy result"
        with tv c True a3 bt have "r = result" by simp
        with t \<open>truthy result\<close> show False by simp
      qed
      from "4.IH"(1)[OF c True a3 refl] bt nt have a3_eq: "a3 = dict_set var value a" by blast
      have del: "dict_del var a3 = Inr a" using a3_eq dict_del_dict_set[OF un] by simp
      from tv c True a3 bt nt del
      have "try_values n cw var prev_domains rest a (s3\<lparr>domains := prev_domains\<rparr>)
              = Inr (r, a', s')"
        by simp
      with "4.IH"(2)[OF c True a3 refl bt refl refl nt del] un t
      show ?thesis by blast
    qed
  qed
qed

lemma hd_sort_key_le:
  assumes "sort_key f xs = y # ys" and "x \<in> set xs"
  shows "f y \<le> f x"
proof -
  have "sorted (map f (sort_key f xs))" by (rule sorted_sort_key)
  with assms(1) have "\<forall>z\<in>set ys. f y \<le> f z" by simp
  moreover have "x \<in> set (sort_key f xs)" using assms(2) by simp
  ultimately show ?thesis using assms(1) by auto
qed

lemma select_unassigned_variable_min:
  assumes "select_unassigned_variable cw s a = Inr var"
    and "x \<in> set (variables cw)" and "map_of a x = None" and "get_domain s x = Inr dx"
  shows "\<exists>dv. get_domain s var = Inr dv \<and> length dv \<le> length dx"
proof -
  let ?valid = "filter (\<lambda>var. map_of a var = None) (variables cw)"
  from assms(1) obtain keys rest where k: "select_keys cw s ?valid = Inr keys"
    and h: "map fst (sort_key snd keys) = var # rest"
    by (auto simp: select_unassigned_variable_def split: sum.splits list.splits)
  from h obtain kv rest' where sk: "sort_key snd keys = (var, kv) # rest'"
    by (cases "sort_key snd keys") auto
  have "(var, kv) \<in> set (sort_key snd keys)" using sk by simp
  then have vk: "(var, kv) \<in> set keys" by simp
  from assms(2,3) have "x \<in> set (map fst keys)" using select_keys_fst[OF k] by simp
  then obtain kx where xk: "(x, kx) \<in> set keys" by auto
  from hd_sort_key_le[OF sk xk] have le: "kv \<le> kx" by simp
  from select_keys_snd[OF k vk] obtain dv where dv: "get_domain s var = Inr dv"
    "kv = (int (length dv), - int (length (neighbors cw var)))" by blast
  from select_keys_snd[OF k xk] assms(4)
  have "kx = (int (length dx), - int (length (neighbors cw x)))" by auto
  with dv(2) le have "length dv \<le> length dx" by (auto simp: less_eq_prod_def)
  with dv(1) show ?thesis by blast
qed

lemma select_keys_total:
  "(\<And>x. x \<in> set xs \<Longrightarrow> \<exists>dx. get_domain s x = Inr dx) \<Longrightarrow> \<exists>keys. select_keys cw s xs = Inr keys"
proof (induction xs)
  case Nil
  then show ?case by auto
next
  case (Cons x xs)
  then obtain keys where "select_keys cw s xs = Inr keys" by auto
  moreover from Cons.prems[of x] obtain dx where "get_domain s x = Inr dx" by auto
  ultimately show ?case by auto
qed

lemma select_unassigned_variable_total:
  assumes "\<And>x. x \<in> set (variables cw) \<Longrightarrow> \<exists>dx. get_domain s x = Inr dx"
    and "x \<in> set (variables cw)" and "map_of a x = None"
  shows "\<exists>var. select_unassigned_variable cw s a = Inr var"
proof -
  let ?valid = "filter (\<lambda>var. map_of a var = None) (variables cw)"
  from select_keys_total[of ?valid s cw] assms(1)
  obtain keys where k: "select_keys cw s ?valid = Inr keys" by auto
  have "x \<in> set ?valid" using assms(2,3) by simp
  with select_keys_fst[OF k] have "x \<in> set (map fst keys)" by simp
  then have "keys \<noteq> []" by auto
  then have "sort_key snd keys \<noteq> []" by (metis length_sort list.size(3) length_0_conv)
  then obtain p ps where "sort_key snd keys = p # ps" by (cases "sort_key snd keys") auto
  with k show ?thesis by (simp add: select_unassigned_variable_def)
qed

lemma get_domain_bt_calls [simp]: "get_domain (s\<lparr>bt_calls := k\<rparr>) v = get_domain s v"
  by (simp add: get_domain_def)

lemma get_domain_deepcopy:
  "deepcopy_domains s = (prev, s1) \<Longrightarrow> get_domain s1 v = get_domain s v"
  by (auto simp: deepcopy_domains_def get_domain_def)

lemma backtrack_empty_domain:
  assumes keys: "\<And>v. v \<in> set (variables cw) \<Longrightarrow> \<exists>dv. get_domain s v = Inr dv"
    and x: "x \<in> set (variables cw)" "get_domain s x = Inr []"
  shows "backtrack (Suc n) cw [] s
           = Inr (None, [], snd (deepcopy_domains (s\<lparr>bt_calls := bt_calls s + 1\<rparr>)))"
proof -
  let ?s0 = "s\<lparr>bt_calls := bt_calls s + 1\<rparr>"
  have nc: "\<not> assignment_complete cw []"
    using x(1) by (auto simp: assignment_complete_def)
  have keys0: "\<And>v. v \<in> set (variables cw) \<Longrightarrow> \<exists>dv. get_domain ?s0 v = Inr dv"
    using keys by simp
  from select_unassigned_variable_total[of cw ?s0 x "[]", OF keys0 x(1)]
  obtain var where sv: "select_unassigned_variable cw ?s0 [] = Inr var" by auto
  from select_unassigned_variable_min[OF sv x(1), of "[]"] x(2)
  have dv: "get_domain ?s0 var = Inr []" by auto
  obtain prev s1 where dc: "deepcopy_domains ?s0 = (prev, s1)" by (cases "deepcopy_domains ?s0")
  from get_domain_deepcopy[OF dc] dv have "get_domain s1 var = Inr []" by simp
  then have ov: "order_domain_values cw s1 var [] = Inr []"
    by (simp add: order_domain_values_def)
  from nc sv dc ov show ?thesis by (simp add: Let_def)
qed

lemma all_arcs_fst: "fst ` set (all_arcs cw) \<subseteq> set (variables cw)"
  by (auto simp: all_arcs_def)

subsection \<open>The depth of the recursion\<close>

text \<open>
  None of the functions below \<open>backtrack\<close> uses the counter, and \<open>backtrack\<close> with one more
  unit than there are unassigned variables never uses it up: every recursive call has one
  more variable assigned. So \<open>solve\<close>, started with the number of variables plus one, ends
  as the Python code does, with a result or with an exception.
\<close>

lemma get_domain_fuel: "get_domain s v = Inl e \<Longrightarrow> e \<noteq> OutOfFuel"
  by (auto simp: get_domain_def split: option.splits)

lemma check_overlap_fuel: "check_overlap cw x y w w' = Inl e \<Longrightarrow> e \<noteq> OutOfFuel"
  by (auto simp: check_overlap_def py_index_def Let_def split: option.splits sum.splits if_splits)

lemma revise_valid_fuel: "revise_valid cw x y w dy = Inl e \<Longrightarrow> e \<noteq> OutOfFuel"
  by (induction dy) (auto split: if_splits sum.splits dest: check_overlap_fuel)

lemma revise_loop_fuel: "revise_loop cw s x y dx = Inl e \<Longrightarrow> e \<noteq> OutOfFuel"
  by (induction dx)
     (auto split: if_splits sum.splits prod.splits dest: revise_valid_fuel get_domain_fuel)

lemma revise_fuel: "revise cw x y s = Inl e \<Longrightarrow> e \<noteq> OutOfFuel"
  by (auto simp: revise_def split: sum.splits prod.splits dest: revise_loop_fuel get_domain_fuel)

lemma ac3_loop_fuel: "ac3_loop cw queue s = Inl e \<Longrightarrow> e \<noteq> OutOfFuel"
proof (induction cw queue s rule: ac3_loop.induct)
  case (1 cw s)
  then show ?case by simp
next
  case (2 cw x y queue s)
  show ?case
  proof (cases "revise cw x y s")
    case (Inl e')
    with "2.prems" show ?thesis by (auto dest: revise_fuel)
  next
    case (Inr p)
    obtain revised s1 where p: "p = (revised, s1)" by (cases p)
    show ?thesis
    proof (cases revised)
      case False
      with "2.prems" Inr p "2.IH"(2)[OF Inr p[symmetric] False] show ?thesis by simp
    next
      case True
      show ?thesis
      proof (cases "get_domain s1 x")
        case (Inl e')
        with "2.prems" \<open>revise cw x y s = Inr p\<close> p True show ?thesis
          by (auto dest: get_domain_fuel)
      next
        case dx: (Inr dx)
        show ?thesis
        proof (cases "dx = []")
          case e: True
          with "2.prems" Inr p True dx show ?thesis by simp
        next
          case False
          with "2.prems" Inr p True dx "2.IH"(1)[OF Inr p[symmetric] True dx False]
          show ?thesis by simp
        qed
      qed
    qed
  qed
qed

lemma ac3_fuel: "ac3 cw arcs s = Inl e \<Longrightarrow> e \<noteq> OutOfFuel"
  by (cases arcs) (auto simp: ac3_def dest: ac3_loop_fuel)

lemma consistent_neighbors_fuel: "consistent_neighbors cw a var ns = Inl e \<Longrightarrow> e \<noteq> OutOfFuel"
  by (induction ns) (auto split: option.splits sum.splits if_splits dest: check_overlap_fuel)

lemma consistent_loop_fuel: "consistent_loop cw a used items = Inl e \<Longrightarrow> e \<noteq> OutOfFuel"
  by (induction cw a used items rule: consistent_loop.induct)
     (auto split: sum.splits if_splits dest: consistent_neighbors_fuel)

lemma consistent_fuel: "consistent cw a = Inl e \<Longrightarrow> e \<noteq> OutOfFuel"
  by (auto simp: consistent_def dest: consistent_loop_fuel)

lemma count_neighbor_values_fuel:
  "count_neighbor_values cw var n v vs = Inl e \<Longrightarrow> e \<noteq> OutOfFuel"
  by (induction vs) (auto split: sum.splits dest: check_overlap_fuel)

lemma count_neighbors_fuel: "count_neighbors cw s var v ns = Inl e \<Longrightarrow> e \<noteq> OutOfFuel"
  by (induction ns)
     (auto split: sum.splits dest: count_neighbor_values_fuel get_domain_fuel)

lemma count_values_fuel: "count_values cw s var vs = Inl e \<Longrightarrow> e \<noteq> OutOfFuel"
  by (induction vs) (auto split: sum.splits dest: count_neighbors_fuel)

lemma order_domain_values_fuel: "order_domain_values cw s var a = Inl e \<Longrightarrow> e \<noteq> OutOfFuel"
  by (auto simp: order_domain_values_def split: sum.splits
           dest: count_values_fuel get_domain_fuel)

lemma select_keys_fuel: "select_keys cw s xs = Inl e \<Longrightarrow> e \<noteq> OutOfFuel"
  by (induction xs) (auto split: sum.splits dest: get_domain_fuel)

lemma select_unassigned_variable_fuel:
  "select_unassigned_variable cw s a = Inl e \<Longrightarrow> e \<noteq> OutOfFuel"
  by (auto simp: select_unassigned_variable_def split: sum.splits list.splits
           dest: select_keys_fuel)

lemma dict_del_fuel: "dict_del k d = Inl e \<Longrightarrow> e \<noteq> OutOfFuel"
  by (auto simp: dict_del_def split: option.splits)

lemma assigned_fewer:
  assumes "distinct vs" and "distinct (map fst a)" and "fst ` set a \<subseteq> set vs"
    and "var \<in> set vs" and "map_of a var = None"
  shows "length a < length vs"
proof -
  have "var \<notin> fst ` set a" using assms(5) by (simp add: map_of_eq_None_iff)
  with assms(3,4) have "set (map fst a) \<subset> set vs" by auto
  then have "card (set (map fst a)) < card (set vs)" by (simp add: psubset_card_mono)
  moreover have "card (set (map fst a)) = length a" using distinct_card[OF assms(2)] by simp
  moreover have "card (set vs) = length vs" using distinct_card[OF assms(1)] .
  ultimately show ?thesis by simp
qed

lemma assigned_at_most:
  assumes "distinct vs" and "distinct (map fst a)" and "fst ` set a \<subseteq> set vs"
  shows "length a \<le> length vs"
proof -
  have "card (set (map fst a)) \<le> card (set vs)" using assms(3) by (simp add: card_mono)
  moreover have "card (set (map fst a)) = length a" using distinct_card[OF assms(2)] by simp
  moreover have "card (set vs) = length vs" using distinct_card[OF assms(1)] .
  ultimately show ?thesis by simp
qed

lemma backtrack_try_values_fuel:
  "(distinct (variables cw) \<longrightarrow> distinct (map fst a) \<longrightarrow> fst ` set a \<subseteq> set (variables cw) \<longrightarrow>
     length (variables cw) < n + length a \<longrightarrow> backtrack n cw a s \<noteq> Inl OutOfFuel)"
  "(distinct (variables cw) \<longrightarrow> distinct (map fst a) \<longrightarrow> fst ` set a \<subseteq> set (variables cw) \<longrightarrow>
     var \<in> set (variables cw) \<longrightarrow> map_of a var = None \<longrightarrow>
     length (variables cw) \<le> n + length a \<longrightarrow>
     try_values n cw var prev vals a s \<noteq> Inl OutOfFuel)"
proof (induction n cw a s and n cw var prev vals a s rule: backtrack_try_values.induct)
  case (1 cw a s)
  show ?case using assigned_at_most[of "variables cw" a] by auto
next
  case (2 n cw a s)
  show ?case
  proof (intro impI)
    assume d: "distinct (variables cw)" "distinct (map fst a)"
      "fst ` set a \<subseteq> set (variables cw)" and len: "length (variables cw) < Suc n + length a"
    let ?s0 = "s\<lparr>bt_calls := bt_calls s + 1\<rparr>"
    show "backtrack (Suc n) cw a s \<noteq> Inl OutOfFuel"
    proof (cases "assignment_complete cw a")
      case True
      then show ?thesis by (simp add: Let_def)
    next
      case nc: False
      show ?thesis
      proof (cases "select_unassigned_variable cw ?s0 a")
        case (Inl e)
        with nc show ?thesis by (auto simp: Let_def dest: select_unassigned_variable_fuel)
      next
        case (Inr var)
        obtain prev s1 where dc: "deepcopy_domains ?s0 = (prev, s1)"
          by (cases "deepcopy_domains ?s0")
        note un = select_unassigned_variable_unassigned[OF Inr]
        show ?thesis
        proof (cases "order_domain_values cw s1 var a")
          case (Inl e)
          with nc \<open>select_unassigned_variable cw ?s0 a = Inr var\<close> dc show ?thesis
            by (auto simp: Let_def dest: order_domain_values_fuel)
        next
          case ov: (Inr vals)
          from "2.IH"[OF refl nc Inr dc[symmetric] ov] d un len
          have "try_values n cw var prev vals a s1 \<noteq> Inl OutOfFuel" by simp
          with nc Inr dc ov show ?thesis by (simp add: Let_def)
        qed
      qed
    qed
  qed
next
  case (3 n cw var prev_domains a s)
  then show ?case by simp
next
  case (4 n cw var prev_domains "value" rest a s)
  show ?case
  proof (intro impI)
    assume d: "distinct (variables cw)" "distinct (map fst a)"
      "fst ` set a \<subseteq> set (variables cw)" and v: "var \<in> set (variables cw)"
      and un: "map_of a var = None" and len: "length (variables cw) \<le> n + length a"
    let ?a1 = "dict_set var value a"
    have a1: "?a1 = a @ [(var, value)]" using un by (rule dict_set_fresh)
    have nk: "var \<notin> fst ` set a" using un by (simp add: map_of_eq_None_iff)
    show "try_values n cw var prev_domains (value # rest) a s \<noteq> Inl OutOfFuel"
    proof (cases "consistent cw a")
      case (Inl e)
      then show ?thesis by (auto dest: consistent_fuel)
    next
      case c: (Inr ok)
      show ?thesis
      proof (cases ok)
        case False
        with c "4.IH"(3)[OF c False] d v un len show ?thesis by simp
      next
        case True
        show ?thesis
        proof (cases "ac3 cw (Some (map (\<lambda>neighbor. (neighbor, var)) (neighbors cw var)))
                        (set_domain s var [value])")
          case (Inl e)
          with c True show ?thesis by (auto dest: ac3_fuel)
        next
          case a3: (Inr p)
          obtain arc s2 where p: "p = (arc, s2)" by (cases p)
          have d1: "distinct (map fst ?a1)" "fst ` set ?a1 \<subseteq> set (variables cw)"
            "length (variables cw) < n + length ?a1"
            using d v nk len by (auto simp: a1)
          from "4.IH"(1)[OF c True a3 p[symmetric]] d(1) d1
          have nf: "backtrack n cw ?a1 s2 \<noteq> Inl OutOfFuel" by simp
          show ?thesis
          proof (cases "backtrack n cw ?a1 s2")
            case (Inl e)
            with nf have "e \<noteq> OutOfFuel" by auto
            with c True a3 p Inl show ?thesis by simp
          next
            case bt: (Inr q)
            obtain result a3' s3 where q: "q = (result, a3', s3)" by (cases q)
            show ?thesis
            proof (cases "truthy result")
              case t: True
              with c True a3 p bt q show ?thesis by simp
            next
              case nt: False
              from backtrack_try_values_restore(1)[of n cw ?a1 s2 result a3' s3] bt q nt
              have "a3' = ?a1" by simp
              then have del: "dict_del var a3' = Inr a" using dict_del_dict_set[OF un] by simp
              from "4.IH"(2)[OF c True a3 p[symmetric] bt q[symmetric] refl nt del] d v un len
              have "try_values n cw var prev_domains rest a (s3\<lparr>domains := prev_domains\<rparr>)
                      \<noteq> Inl OutOfFuel" by simp
              with c True a3 p bt q nt del show ?thesis by simp
            qed
          qed
        qed
      qed
    qed
  qed
qed

lemma node_loop_fuel: "node_loop vs s = Inl e \<Longrightarrow> e \<noteq> OutOfFuel"
  by (induction vs arbitrary: s) (auto simp: Let_def split: sum.splits dest: get_domain_fuel)

lemma solve_enough_fuel:
  assumes "distinct (variables cw)"
  shows "solve (Suc (length (variables cw))) cw s \<noteq> Inl OutOfFuel"
proof (cases "enforce_node_consistency s")
  case (Inl e)
  then show ?thesis
    by (auto simp: solve_def enforce_node_consistency_def dest: node_loop_fuel)
next
  case n: (Inr s1)
  show ?thesis
  proof (cases "ac3 cw None s1")
    case (Inl e)
    with n show ?thesis by (auto simp: solve_def dest: ac3_fuel)
  next
    case (Inr p)
    obtain arc s2 where p: "p = (arc, s2)" by (cases p)
    from backtrack_try_values_fuel(1)[of cw "[]" "Suc (length (variables cw))" s2] assms
    have "backtrack (Suc (length (variables cw))) cw [] s2 \<noteq> Inl OutOfFuel" by simp
    with n Inr p show ?thesis by (simp add: solve_def)
  qed
qed

subsection \<open>Node consistency\<close>

text \<open>
  Claim C7. \<open>enforce_node_consistency\<close> always returns, keeps the keys, and replaces the
  domain \<open>ws\<close> of every slot \<open>v\<close> by the words of \<open>ws\<close> whose length is \<open>v.length\<close>: every
  word that remains has the slot's length, and the words removed are exactly the words of
  \<open>ws\<close> whose length differs.
\<close>

theorem enforce_node_consistency_exact:
  "\<exists>s'. enforce_node_consistency s = Inr s' \<and> domain_keys s' = domain_keys s \<and>
     (\<forall>v ws. get_domain s v = Inr ws \<longrightarrow>
        (\<exists>ws'. get_domain s' v = Inr ws'
           \<and> ws' = filter (\<lambda>w. int (length w) = var_length v) ws
           \<and> (\<forall>w\<in>set ws'. int (length w) = var_length v)
           \<and> {w \<in> set ws. w \<notin> set ws'} = {w \<in> set ws. int (length w) \<noteq> var_length v}))"
proof -
  from enforce_node_consistency_result[of s] obtain s' where
    s': "enforce_node_consistency s = Inr s'" "domain_keys s' = domain_keys s" and
    g: "\<And>v ws. get_domain s v = Inr ws \<Longrightarrow>
          get_domain s' v = Inr (filter (\<lambda>w. int (length w) = var_length v) ws)"
    by blast
  have "\<exists>ws'. get_domain s' v = Inr ws'
           \<and> ws' = filter (\<lambda>w. int (length w) = var_length v) ws
           \<and> (\<forall>w\<in>set ws'. int (length w) = var_length v)
           \<and> {w \<in> set ws. w \<notin> set ws'} = {w \<in> set ws. int (length w) \<noteq> var_length v}"
    if "get_domain s v = Inr ws" for v ws
    using g[OF that] by auto
  with s' show ?thesis by blast
qed

theorem enforce_node_consistency_exact_witness:
  "\<exists>s'. enforce_node_consistency (init_creator crossing) = Inr s'
     \<and> get_domain (init_creator crossing) (Variable 0 0 ACROSS 3)
         = Inr [''CAT'', ''CAR'', ''ART'', ''TREE'']
     \<and> get_domain s' (Variable 0 0 ACROSS 3) = Inr [''CAT'', ''CAR'', ''ART'']"
proof -
  have h: "get_domain (init_creator crossing) (Variable 0 0 ACROSS 3)
         = Inr [''CAT'', ''CAR'', ''ART'', ''TREE'']"
    by code_simp
  have v: "var_length (Variable 0 0 ACROSS 3) = 3" by (simp add: Variable_def)
  from enforce_node_consistency_exact[of "init_creator crossing"] h v
  show ?thesis by fastforce
qed

text \<open>
  Claim C8. \<open>enforce_node_consistency\<close> is idempotent: a second call, on the state the first
  call returned, returns that state unchanged.
\<close>

theorem enforce_node_consistency_idempotent:
  "\<exists>s1. enforce_node_consistency s = Inr s1 \<and> enforce_node_consistency s1 = Inr s1"
  using enforce_node_consistency_result[of s] enforce_node_consistency_twice by blast

subsection \<open>revise\<close>

text \<open>
  Claim C5. When \<open>revise(x, y)\<close> returns, the domain of \<open>x\<close> holds exactly the words that
  had a word of \<open>y\<close>'s domain, other than themselves, for which \<open>check_overlap\<close> answers
  \<open>True\<close>; the domain of every other slot (so that of \<open>y\<close>, for \<open>y\<close> other than \<open>x\<close>) is
  unchanged; and the value returned is \<open>True\<close> exactly when a word was removed.
  \<open>check_overlap\<close> answers \<open>True\<close> for every pair of words when the overlap of \<open>x\<close> and \<open>y\<close>
  is \<open>None\<close>, and compares the letters at the two offsets otherwise. (\<open>revise_total\<close> above
  gives a condition under which \<open>revise\<close> returns.)
\<close>

theorem revise_removes_unsupported:
  assumes "revise cw x y s = Inr (revised, s')"
    and "get_domain s x = Inr dx" and "get_domain s y = Inr dy"
  shows "get_domain s' x =
           Inr (filter (\<lambda>w. \<exists>w'\<in>set dy. w' \<noteq> w \<and> check_overlap cw x y w w' = Inr True) dx)
       \<and> (\<forall>z. z \<noteq> x \<longrightarrow> get_domain s' z = get_domain s z)
       \<and> (revised \<longleftrightarrow>
            (\<exists>w\<in>set dx. \<not> (\<exists>w'\<in>set dy. w' \<noteq> w \<and> check_overlap cw x y w w' = Inr True)))
       \<and> (overlaps cw (x, y) = Some None \<longrightarrow> (\<forall>w w'. check_overlap cw x y w w' = Inr True))
       \<and> (\<forall>i j w w'. overlaps cw (x, y) = Some (Some (i, j)) \<and> 0 \<le> i \<and> i < int (length w)
              \<and> 0 \<le> j \<and> j < int (length w') \<longrightarrow>
              check_overlap cw x y w w' = Inr (w ! nat i = w' ! nat j))"
proof -
  note r = revise_result[OF assms]
  have 1: "get_domain s' x =
           Inr (filter (\<lambda>w. \<exists>w'\<in>set dy. w' \<noteq> w \<and> check_overlap cw x y w w' = Inr True) dx)"
    using r(1) by (simp add: get_domain_set_domain supported_def[abs_def])
  have 2: "\<forall>z. z \<noteq> x \<longrightarrow> get_domain s' z = get_domain s z"
    using r(1) by (simp add: get_domain_set_domain)
  have 3: "revised \<longleftrightarrow>
            (\<exists>w\<in>set dx. \<not> (\<exists>w'\<in>set dy. w' \<noteq> w \<and> check_overlap cw x y w w' = Inr True))"
    using r(2) by (simp add: supported_def)
  have 4: "overlaps cw (x, y) = Some None \<longrightarrow> (\<forall>w w'. check_overlap cw x y w w' = Inr True)"
    by (simp add: check_overlap_none)
  have 5: "\<forall>i j w w'. overlaps cw (x, y) = Some (Some (i, j)) \<and> 0 \<le> i \<and> i < int (length w)
              \<and> 0 \<le> j \<and> j < int (length w') \<longrightarrow>
              check_overlap cw x y w w' = Inr (w ! nat i = w' ! nat j)"
    by (simp add: check_overlap_offsets)
  from 1 2 3 4 5 show ?thesis by blast
qed

lemma comb_revise:
  "(case revise comb (Variable 0 0 ACROSS 3) (Variable 0 0 DOWN 3) (init_creator comb) of
      Inl e \<Rightarrow> False
    | Inr (revised, s') \<Rightarrow> revised \<and> get_domain s' (Variable 0 0 ACROSS 3) = Inr [''CAT'', ''COW'']
         \<and> get_domain s' (Variable 0 0 DOWN 3) = Inr [''CAT'', ''COW'', ''TEA'', ''WAR'', ''ACE''])"
  by code_simp

theorem revise_removes_unsupported_witness:
  "\<exists>s'. revise comb (Variable 0 0 ACROSS 3) (Variable 0 0 DOWN 3) (init_creator comb) = Inr (True, s')
     \<and> get_domain (init_creator comb) (Variable 0 0 ACROSS 3)
          = Inr [''CAT'', ''COW'', ''TEA'', ''WAR'', ''ACE'']
     \<and> get_domain s' (Variable 0 0 ACROSS 3) = Inr [''CAT'', ''COW'']
     \<and> get_domain s' (Variable 0 0 DOWN 3) = Inr [''CAT'', ''COW'', ''TEA'', ''WAR'', ''ACE'']
     \<and> check_overlap comb (Variable 0 0 ACROSS 3) (Variable 0 0 DOWN 3) ''CAT'' ''COW'' = Inr True"
proof -
  let ?A = "Variable 0 0 ACROSS 3" and ?D = "Variable 0 0 DOWN 3"
  have dx: "get_domain (init_creator comb) ?A = Inr [''CAT'', ''COW'', ''TEA'', ''WAR'', ''ACE'']"
    by code_simp
  have dy: "get_domain (init_creator comb) ?D = Inr [''CAT'', ''COW'', ''TEA'', ''WAR'', ''ACE'']"
    by code_simp
  have ov: "overlaps comb (?A, ?D) = Some (Some (0, 0))" by code_simp
  have ne: "?D \<noteq> ?A" by code_simp
  from comb_revise obtain s' where
    rv: "revise comb ?A ?D (init_creator comb) = Inr (True, s')"
    by (auto split: sum.splits)
  from revise_removes_unsupported[OF rv dx dy] ov ne
  have "get_domain s' ?A =
           Inr (filter (\<lambda>w. \<exists>w'\<in>set [''CAT'', ''COW'', ''TEA'', ''WAR'', ''ACE''].
                   w' \<noteq> w \<and> check_overlap comb ?A ?D w w' = Inr True)
                 [''CAT'', ''COW'', ''TEA'', ''WAR'', ''ACE''])"
    and "get_domain s' ?D = get_domain (init_creator comb) ?D"
    and "check_overlap comb ?A ?D ''CAT'' ''COW'' = Inr (''CAT'' ! nat 0 = ''COW'' ! nat 0)"
    by auto
  moreover have "filter (\<lambda>w. \<exists>w'\<in>set [''CAT'', ''COW'', ''TEA'', ''WAR'', ''ACE''].
                   w' \<noteq> w \<and> check_overlap comb ?A ?D w w' = Inr True)
                 [''CAT'', ''COW'', ''TEA'', ''WAR'', ''ACE''] = [''CAT'', ''COW'']"
    by code_simp
  ultimately show ?thesis using rv dx dy by simp
qed

subsection \<open>ac3\<close>

text \<open>
  Claim C6. \<open>ac3\<close> works on a queue: with an empty queue it returns \<open>True\<close>; otherwise it
  takes the first arc \<open>(x, y)\<close> and calls \<open>revise(x, y)\<close>. If nothing was removed it goes on
  with the rest of the queue. If something was removed and the domain of \<open>x\<close> is now empty
  it returns \<open>False\<close> at once; if the domain is not empty it goes on with the rest of the
  queue followed by the arcs \<open>(z, x)\<close> for the neighbours \<open>z\<close> of \<open>x\<close> other than \<open>y\<close>. The
  value returned is \<open>True\<close> exactly when no domain that held a word at the start is empty
  at the end.
\<close>

theorem ac3_queue_and_result:
  "ac3 cw (Some queue) s = ac3_loop cw queue s
   \<and> ac3 cw None s = ac3_loop cw (all_arcs cw) s
   \<and> ac3_loop cw [] s = Inr (True, s)
   \<and> (revise cw x y s = Inr (False, s1) \<longrightarrow>
        ac3_loop cw ((x, y) # queue) s = ac3_loop cw queue s1)
   \<and> (revise cw x y s = Inr (True, s1) \<and> get_domain s1 x = Inr [] \<longrightarrow>
        ac3_loop cw ((x, y) # queue) s = Inr (False, s1))
   \<and> (revise cw x y s = Inr (True, s1) \<and> get_domain s1 x = Inr dx \<and> dx \<noteq> [] \<longrightarrow>
        ac3_loop cw ((x, y) # queue) s =
          ac3_loop cw (queue @ map (\<lambda>z. (z, x)) (filter (\<lambda>z. z \<noteq> y) (neighbors cw x))) s1)
   \<and> (ac3 cw arcs s = Inr (ok, s') \<longrightarrow>
        (ok \<longleftrightarrow>
           \<not> (\<exists>v ws. get_domain s v = Inr ws \<and> ws \<noteq> [] \<and> get_domain s' v = Inr [])))"
proof -
  have "ok \<longleftrightarrow> \<not> (\<exists>v ws. get_domain s v = Inr ws \<and> ws \<noteq> [] \<and> get_domain s' v = Inr [])"
    if "ac3 cw arcs s = Inr (ok, s')"
    using that ac3_loop_ok_iff[of cw _ s ok s'] by (cases arcs) (simp_all add: ac3_def)
  then show ?thesis by (simp add: ac3_def)
qed

lemma comb_step:
  "(case revise comb (Variable 0 0 ACROSS 3) (Variable 0 0 DOWN 3) (init_creator comb) of
      Inl e \<Rightarrow> False
    | Inr (revised, s1) \<Rightarrow> revised \<and> get_domain s1 (Variable 0 0 ACROSS 3) = Inr [''CAT'', ''COW''])"
  by code_simp

lemma comb_ac3:
  "(case ac3 comb None (init_creator comb) of Inl e \<Rightarrow> False | Inr (ok, s') \<Rightarrow> ok)"
  by code_simp

lemma clash_ac3:
  "(case ac3 clash None (init_creator clash) of Inl e \<Rightarrow> False | Inr (ok, s') \<Rightarrow> \<not> ok)"
  by code_simp

theorem ac3_queue_and_result_witness:
  "(\<exists>s1. revise comb (Variable 0 0 ACROSS 3) (Variable 0 0 DOWN 3) (init_creator comb)
            = Inr (True, s1)
        \<and> get_domain s1 (Variable 0 0 ACROSS 3) = Inr [''CAT'', ''COW'']
        \<and> ac3_loop comb [(Variable 0 0 ACROSS 3, Variable 0 0 DOWN 3),
                          (Variable 0 0 DOWN 3, Variable 0 0 ACROSS 3)] (init_creator comb)
            = ac3_loop comb [(Variable 0 0 DOWN 3, Variable 0 0 ACROSS 3),
                             (Variable 0 2 DOWN 3, Variable 0 0 ACROSS 3)] s1)
   \<and> (\<exists>s'. ac3 comb None (init_creator comb) = Inr (True, s')
        \<and> \<not> (\<exists>v ws. get_domain (init_creator comb) v = Inr ws \<and> ws \<noteq> []
                  \<and> get_domain s' v = Inr []))
   \<and> (\<exists>s'. ac3 clash None (init_creator clash) = Inr (False, s')
        \<and> (\<exists>v ws. get_domain (init_creator clash) v = Inr ws \<and> ws \<noteq> []
                  \<and> get_domain s' v = Inr []))"
proof -
  let ?A = "Variable 0 0 ACROSS 3" and ?D = "Variable 0 0 DOWN 3"
  from comb_step obtain s1 where
    rv: "revise comb ?A ?D (init_creator comb) = Inr (True, s1)" and
    dx: "get_domain s1 ?A = Inr [''CAT'', ''COW'']"
    by (auto split: sum.splits)
  have nb: "map (\<lambda>z. (z, ?A)) (filter (\<lambda>z. z \<noteq> ?D) (neighbors comb ?A))
              = [(Variable 0 2 DOWN 3, ?A)]"
    by code_simp
  from ac3_queue_and_result[of comb "[(?D, ?A)]" "init_creator comb" ?A ?D s1
         "[''CAT'', ''COW'']"] rv dx nb
  have 1: "ac3_loop comb [(?A, ?D), (?D, ?A)] (init_creator comb)
            = ac3_loop comb [(?D, ?A), (Variable 0 2 DOWN 3, ?A)] s1"
    by simp
  from comb_ac3 obtain s' where a: "ac3 comb None (init_creator comb) = Inr (True, s')"
    by (auto split: sum.splits)
  from ac3_queue_and_result[of comb _ "init_creator comb" _ _ _ _ None True s'] a
  have 2: "\<not> (\<exists>v ws. get_domain (init_creator comb) v = Inr ws \<and> ws \<noteq> []
                  \<and> get_domain s' v = Inr [])"
    by blast
  from clash_ac3 obtain s'' where b: "ac3 clash None (init_creator clash) = Inr (False, s'')"
    by (auto split: sum.splits)
  from ac3_queue_and_result[of clash _ "init_creator clash" _ _ _ _ None False s''] b
  have 3: "\<exists>v ws. get_domain (init_creator clash) v = Inr ws \<and> ws \<noteq> []
                  \<and> get_domain s'' v = Inr []"
    by blast
  from rv dx 1 a 2 b 3 show ?thesis by blast
qed

subsection \<open>Domains only shrink\<close>

text \<open>
  Claim C9. When \<open>enforce_node_consistency\<close>, \<open>revise\<close> or \<open>ac3\<close> returns, the keys of
  \<open>self.domains\<close> are the same as before, and the domain of every slot is a subset of what
  it was.
\<close>

theorem domains_only_shrink:
  assumes "enforce_node_consistency s = Inr s'
           \<or> revise cw x y s = Inr (b, s') \<or> ac3 cw arcs s = Inr (b, s')"
  shows "domain_keys s' = domain_keys s
         \<and> (\<forall>v ws. get_domain s v = Inr ws \<longrightarrow>
               (\<exists>ws'. get_domain s' v = Inr ws' \<and> set ws' \<subseteq> set ws))"
proof -
  have n: ?thesis if "enforce_node_consistency s = Inr s'"
    using enforce_node_consistency_result[of s] that by auto
  have r: ?thesis if "revise cw x y s = Inr (b, s')"
    using revise_mono(1,5)[OF that] by blast
  have a: ?thesis if "ac3 cw arcs s = Inr (b, s')"
    using that ac3_loop_mono[of cw _ s b s'] by (cases arcs) (simp_all add: ac3_def)
  from assms n r a show ?thesis by blast
qed


lemma crossing_run:
  "(case enforce_node_consistency (init_creator crossing) of
      Inl e \<Rightarrow> False
    | Inr s1 \<Rightarrow>
        get_domain s1 (Variable 0 1 DOWN 3) = Inr [''CAT'', ''CAR'', ''ART''] \<and>
        (case revise crossing (Variable 0 1 DOWN 3) (Variable 0 0 ACROSS 3) s1 of
           Inl e \<Rightarrow> False
         | Inr (b, s2) \<Rightarrow> b \<and> get_domain s2 (Variable 0 1 DOWN 3) = Inr [''ART'']) \<and>
        (case ac3 crossing None s1 of
           Inl e \<Rightarrow> False
         | Inr (b, s3) \<Rightarrow> b \<and> get_domain s3 (Variable 0 1 DOWN 3) = Inr [''ART'']))"
  by code_simp

theorem domains_only_shrink_witness:
  "\<exists>s1 s2 s3.
     enforce_node_consistency (init_creator crossing) = Inr s1
     \<and> revise crossing (Variable 0 1 DOWN 3) (Variable 0 0 ACROSS 3) s1 = Inr (True, s2)
     \<and> ac3 crossing None s1 = Inr (True, s3)
     \<and> domain_keys s1 = domain_keys (init_creator crossing)
     \<and> domain_keys s2 = domain_keys s1 \<and> domain_keys s3 = domain_keys s1
     \<and> get_domain s1 (Variable 0 1 DOWN 3) = Inr [''CAT'', ''CAR'', ''ART'']
     \<and> get_domain s2 (Variable 0 1 DOWN 3) = Inr [''ART'']
     \<and> get_domain s3 (Variable 0 1 DOWN 3) = Inr [''ART'']"
proof -
  let ?A = "Variable 0 0 ACROSS 3" and ?D = "Variable 0 1 DOWN 3"
  from crossing_run obtain s1 s2 s3 where
    n: "enforce_node_consistency (init_creator crossing) = Inr s1" and
    r: "revise crossing ?D ?A s1 = Inr (True, s2)" and
    a: "ac3 crossing None s1 = Inr (True, s3)" and
    d: "get_domain s1 ?D = Inr [''CAT'', ''CAR'', ''ART'']"
       "get_domain s2 ?D = Inr [''ART'']" "get_domain s3 ?D = Inr [''ART'']"
    by (auto split: sum.splits)
  from domains_only_shrink[of "init_creator crossing" s1] n
  have 1: "domain_keys s1 = domain_keys (init_creator crossing)" by blast
  from domains_only_shrink[of s1 s2 crossing ?D ?A True] r
  have 2: "domain_keys s2 = domain_keys s1" by blast
  from domains_only_shrink[of s1 s3 crossing _ _ True None] a
  have 3: "domain_keys s3 = domain_keys s1" by blast
  from n r a d 1 2 3 show ?thesis by blast
qed

subsection \<open>The assignment after a failed search\<close>

text \<open>
  Claim C10. When \<open>backtrack(assignment)\<close> returns \<open>None\<close>, the assignment holds the same
  entries, in the same order, as when the call began.
\<close>

theorem backtrack_failure_restores_assignment:
  "backtrack n cw a s = Inr (None, a', s') \<Longrightarrow> a' = a"
  using backtrack_try_values_restore(1)[of n cw a s None a' s'] by simp

lemma four_rows_backtrack:
  "(case backtrack 3 four_rows
           [(Variable 0 0 ACROSS 3, ''CAT''), (Variable 2 0 ACROSS 3, ''DOG'')]
           (init_creator four_rows) of
      Inl e \<Rightarrow> False
    | Inr (result, a', s') \<Rightarrow> result = None \<and> bt_calls s' = 3)"
  by code_simp

theorem backtrack_failure_restores_assignment_witness:
  "\<exists>s'. backtrack 3 four_rows
           [(Variable 0 0 ACROSS 3, ''CAT''), (Variable 2 0 ACROSS 3, ''DOG'')]
           (init_creator four_rows)
         = Inr (None, [(Variable 0 0 ACROSS 3, ''CAT''), (Variable 2 0 ACROSS 3, ''DOG'')], s')
       \<and> bt_calls s' = 3"
proof -
  from four_rows_backtrack obtain a' s' where
    b: "backtrack 3 four_rows
           [(Variable 0 0 ACROSS 3, ''CAT''), (Variable 2 0 ACROSS 3, ''DOG'')]
           (init_creator four_rows) = Inr (None, a', s')" and c: "bt_calls s' = 3"
    by (auto split: sum.splits)
  from backtrack_failure_restores_assignment[OF b] b c show ?thesis by blast
qed

subsection \<open>solve after a failed ac3\<close>

text \<open>The run of \<open>solve\<close> on \<open>clash\<close>, evaluated.\<close>

lemma clash_run:
  "(case enforce_node_consistency (init_creator clash) of
      Inl e \<Rightarrow> False
    | Inr s1 \<Rightarrow>
        (case ac3 clash None s1 of
           Inl e \<Rightarrow> False
         | Inr (ok, s2) \<Rightarrow> \<not> ok \<and> get_domain s2 (Variable 0 0 ACROSS 3) = Inr []))"
  by code_simp

lemma clash_solve:
  "(case solve 1 clash (init_creator clash) of
      Inl e \<Rightarrow> False
    | Inr (result, a, s3) \<Rightarrow> result = None \<and> a = [] \<and> bt_calls s3 = 1)"
  by code_simp

text \<open>
  Claim C2 says that \<open>solve\<close> returns no solution without entering the search when the
  global pass of \<open>ac3\<close> empties a domain. \<open>solve\<close> does not read the value of \<open>ac3\<close>: it
  always calls \<open>backtrack\<close>. On \<open>clash\<close> the pass empties the domain of the ACROSS slot and
  returns \<open>False\<close>, and \<open>backtrack\<close> is called once.
\<close>

theorem solve_enters_backtrack_after_failed_ac3:
  "\<exists>s1 s2 s3.
     enforce_node_consistency (init_creator clash) = Inr s1
     \<and> ac3 clash None s1 = Inr (False, s2)
     \<and> get_domain s2 (Variable 0 0 ACROSS 3) = Inr []
     \<and> solve 1 clash (init_creator clash) = Inr (None, [], s3)
     \<and> bt_calls (init_creator clash) = 0 \<and> bt_calls s3 = 1"
proof -
  from clash_run obtain s1 s2 where
    "enforce_node_consistency (init_creator clash) = Inr s1"
    "ac3 clash None s1 = Inr (False, s2)" "get_domain s2 (Variable 0 0 ACROSS 3) = Inr []"
    by (auto split: sum.splits)
  moreover from clash_solve obtain s3 where
    "solve 1 clash (init_creator clash) = Inr (None, [], s3)" "bt_calls s3 = 1"
    by (auto split: sum.splits)
  moreover have "bt_calls (init_creator clash) = 0" by (simp add: init_creator_def)
  ultimately show ?thesis by blast
qed

text \<open>
  Claim C2, amended. If every variable has a domain and the neighbours of a variable are
  variables, and the global pass of \<open>ac3\<close> returns \<open>False\<close>, then \<open>solve\<close> returns the
  result \<open>None\<close> with the assignment empty: \<open>backtrack\<close> is called exactly once, and that
  call commits no value and leaves the domains as \<open>ac3\<close> left them (the slot it selects
  has an empty domain).
\<close>

theorem solve_after_failed_ac3:
  assumes "enforce_node_consistency s = Inr s1" and "ac3 cw None s1 = Inr (False, s2)"
    and "set (variables cw) \<subseteq> set (domain_keys s)"
    and "\<forall>v\<in>set (variables cw). set (neighbors cw v) \<subseteq> set (variables cw)"
  shows "\<exists>s3. solve (Suc n) cw s = Inr (None, [], s3)
           \<and> bt_calls s3 = bt_calls s + 1
           \<and> domains s3 = domains s2 \<and> store s3 (domains s3) = store s2 (domains s2)"
proof -
  from enforce_node_consistency_result[of s] assms(1)
  have k1: "domain_keys s1 = domain_keys s" and b1: "bt_calls s1 = bt_calls s" by auto
  from assms(2) have l: "ac3_loop cw (all_arcs cw) s1 = Inr (False, s2)" by (simp add: ac3_def)
  from ac3_loop_mono[OF l] have k2: "domain_keys s2 = domain_keys s1"
    and b2: "bt_calls s2 = bt_calls s1" by auto
  from ac3_loop_false_within[OF l all_arcs_fst] assms(4)
  obtain x where x: "x \<in> set (variables cw)" "get_domain s2 x = Inr []" by blast
  have keys: "\<exists>dv. get_domain s2 v = Inr dv" if "v \<in> set (variables cw)" for v
    using that assms(3) k1 k2 keys_get_domain[of v s2] by auto
  let ?s3 = "snd (deepcopy_domains (s2\<lparr>bt_calls := bt_calls s2 + 1\<rparr>))"
  from backtrack_empty_domain[of cw s2 x n, OF keys x]
  have bt: "backtrack (Suc n) cw [] s2 = Inr (None, [], ?s3)" by simp
  have "solve (Suc n) cw s = Inr (None, [], ?s3)"
    using assms(1,2) bt by (simp add: solve_def)
  moreover have "bt_calls ?s3 = bt_calls s + 1" using b1 b2 by (simp add: deepcopy_domains_def)
  moreover have "domains ?s3 = domains s2" by (simp add: deepcopy_domains_def)
  moreover have "store ?s3 (domains ?s3) = store s2 (domains s2)"
    by (simp add: deepcopy_domains_def)
  ultimately show ?thesis by blast
qed

theorem solve_after_failed_ac3_witness:
  "\<exists>s1 s2 s3.
     enforce_node_consistency (init_creator clash) = Inr s1
     \<and> ac3 clash None s1 = Inr (False, s2)
     \<and> solve (Suc 4) clash (init_creator clash) = Inr (None, [], s3)
     \<and> bt_calls s3 = 1 \<and> store s3 (domains s3) = store s2 (domains s2)"
proof -
  from clash_run obtain s1 s2 where
    n: "enforce_node_consistency (init_creator clash) = Inr s1" and
    a: "ac3 clash None s1 = Inr (False, s2)"
    by (auto split: sum.splits)
  have k: "set (variables clash) \<subseteq> set (domain_keys (init_creator clash))" by code_simp
  have nb: "\<forall>v\<in>set (variables clash). set (neighbors clash v) \<subseteq> set (variables clash)"
    by code_simp
  have b: "bt_calls (init_creator clash) = 0" by (simp add: init_creator_def)
  from solve_after_failed_ac3[OF n a k nb, of 4] b n a show ?thesis by auto
qed

subsection \<open>The assignment that solve returns\<close>

text \<open>
  Claim C1 says that an assignment returned by \<open>solve\<close> gives every slot a word, no word
  twice, each word of the slot's length, and agreeing letters where slots cross. On the
  crossword \<open>two_rows\<close> the code returns the assignment that gives CAT to both slots, and
  \<open>consistent\<close> itself rejects that assignment: \<open>backtrack\<close> tests \<open>consistent(assignment)\<close>
  before it adds the value, so the value given to the last variable is never tested.
\<close>

theorem solve_two_rows_repeats_word:
  "returned (solve 3 two_rows (init_creator two_rows))
     = Inr (Some [(Variable 0 0 ACROSS 3, ''CAT''), (Variable 2 0 ACROSS 3, ''CAT'')])
   \<and> consistent two_rows [(Variable 0 0 ACROSS 3, ''CAT''), (Variable 2 0 ACROSS 3, ''CAT'')]
     = Inr False"
  by code_simp

subsection \<open>The test before a value is committed\<close>

text \<open>
  Claim C3 says that a candidate is committed only if the assignment extended with the
  candidate is consistent. The code tests \<open>consistent(assignment)\<close> before it stores the
  candidate, so it tests the assignment without the candidate. On \<open>two_rows\<close>, with row 0
  holding CAT, \<open>backtrack\<close> selects row 2, whose only candidate is CAT; the assignment
  extended with that candidate is not consistent, and \<open>backtrack\<close> commits it and returns
  it.
\<close>

theorem backtrack_commits_unchecked_value:
  "select_unassigned_variable two_rows (init_creator two_rows)
       [(Variable 0 0 ACROSS 3, ''CAT'')] = Inr (Variable 2 0 ACROSS 3)
   \<and> order_domain_values two_rows (init_creator two_rows) (Variable 2 0 ACROSS 3)
       [(Variable 0 0 ACROSS 3, ''CAT'')] = Inr [''CAT'']
   \<and> consistent two_rows [(Variable 0 0 ACROSS 3, ''CAT''), (Variable 2 0 ACROSS 3, ''CAT'')]
       = Inr False
   \<and> returned (backtrack 2 two_rows [(Variable 0 0 ACROSS 3, ''CAT'')] (init_creator two_rows))
       = Inr (Some [(Variable 0 0 ACROSS 3, ''CAT''), (Variable 2 0 ACROSS 3, ''CAT'')])"
  by code_simp

subsection \<open>The snapshot of the domains\<close>

text \<open>Runs on \<open>four_rows\<close>, evaluated.\<close>

lemma four_rows_solve:
  "(case solve 5 four_rows (init_creator four_rows) of
      Inl e \<Rightarrow> False
    | Inr (result, a, s') \<Rightarrow>
        result = None \<and> a = [] \<and> domains s' = 1 \<and>
        store s' (domains s') =
          [(Variable 0 0 ACROSS 3, [''DOG'']), (Variable 2 0 ACROSS 3, [''CAT'']),
           (Variable 4 0 ACROSS 3, [''CAT'']), (Variable 6 0 ACROSS 3, [''CAT'', ''DOG''])])"
  by code_simp

lemma four_rows_first_value:
  "(case try_values 4 four_rows (Variable 0 0 ACROSS 3) 1 [''CAT''] []
           (snd (deepcopy_domains (init_creator four_rows))) of
      Inl e \<Rightarrow> False
    | Inr (result, a, s') \<Rightarrow>
        result = None \<and> a = [] \<and> domains s' = 1 \<and>
        store s' (domains s') =
          [(Variable 0 0 ACROSS 3, [''CAT'', ''DOG'']), (Variable 2 0 ACROSS 3, [''CAT'', ''DOG'']),
           (Variable 4 0 ACROSS 3, [''CAT'', ''DOG'']), (Variable 6 0 ACROSS 3, [''CAT'', ''DOG''])])"
  by code_simp

lemma four_rows_both_values:
  "(case try_values 4 four_rows (Variable 0 0 ACROSS 3) 1 [''CAT'', ''DOG''] []
           (snd (deepcopy_domains (init_creator four_rows))) of
      Inl e \<Rightarrow> False
    | Inr (result, a, s') \<Rightarrow>
        result = None \<and> a = [] \<and> domains s' = 1 \<and>
        store s' (domains s') =
          [(Variable 0 0 ACROSS 3, [''DOG'']), (Variable 2 0 ACROSS 3, [''CAT'']),
           (Variable 4 0 ACROSS 3, [''CAT'']), (Variable 6 0 ACROSS 3, [''CAT'', ''DOG''])])"
  by code_simp

text \<open>
  Claim C4 says that after the undo step of every failed branch, not only the first, the
  domains equal the snapshot taken before the branch. \<open>backtrack\<close> copies the domains once,
  before its loop, and the undo step assigns that one copy back (\<open>self.domains =
  prev_domains\<close>). From then on \<open>self.domains\<close> is the copy itself, so the next candidate
  changes the copy, and the next undo step restores nothing.

  On \<open>four_rows\<close> the first call of \<open>backtrack\<close> selects the slot in row 0 and takes its
  snapshot at address 1. Both candidates fail. With the candidate CAT alone, the domains
  after the undo step are those of the constructor. With CAT and then DOG, the domains
  after the second undo step are what the branch of DOG left behind: row 0 has lost CAT,
  rows 2 and 4 have lost DOG. \<open>solve\<close> ends in that state.
\<close>

theorem backtrack_second_undo_restores_nothing:
  "store (init_creator four_rows) (domains (init_creator four_rows)) =
     [(Variable 0 0 ACROSS 3, [''CAT'', ''DOG'']), (Variable 2 0 ACROSS 3, [''CAT'', ''DOG'']),
      (Variable 4 0 ACROSS 3, [''CAT'', ''DOG'']), (Variable 6 0 ACROSS 3, [''CAT'', ''DOG''])]
   \<and> fst (deepcopy_domains (init_creator four_rows)) = 1
   \<and> (\<exists>s'. try_values 4 four_rows (Variable 0 0 ACROSS 3) 1 [''CAT''] []
               (snd (deepcopy_domains (init_creator four_rows))) = Inr (None, [], s')
          \<and> domains s' = 1
          \<and> store s' (domains s') =
             [(Variable 0 0 ACROSS 3, [''CAT'', ''DOG'']),
              (Variable 2 0 ACROSS 3, [''CAT'', ''DOG'']),
              (Variable 4 0 ACROSS 3, [''CAT'', ''DOG'']),
              (Variable 6 0 ACROSS 3, [''CAT'', ''DOG''])])
   \<and> (\<exists>s'. try_values 4 four_rows (Variable 0 0 ACROSS 3) 1 [''CAT'', ''DOG''] []
               (snd (deepcopy_domains (init_creator four_rows))) = Inr (None, [], s')
          \<and> domains s' = 1
          \<and> store s' (domains s') =
             [(Variable 0 0 ACROSS 3, [''DOG'']), (Variable 2 0 ACROSS 3, [''CAT'']),
              (Variable 4 0 ACROSS 3, [''CAT'']), (Variable 6 0 ACROSS 3, [''CAT'', ''DOG''])])
   \<and> (\<exists>s'. solve 5 four_rows (init_creator four_rows) = Inr (None, [], s')
          \<and> domains s' = 1
          \<and> store s' (domains s') =
             [(Variable 0 0 ACROSS 3, [''DOG'']), (Variable 2 0 ACROSS 3, [''CAT'']),
              (Variable 4 0 ACROSS 3, [''CAT'']), (Variable 6 0 ACROSS 3, [''CAT'', ''DOG''])])"
proof -
  have 1: "store (init_creator four_rows) (domains (init_creator four_rows)) =
     [(Variable 0 0 ACROSS 3, [''CAT'', ''DOG'']), (Variable 2 0 ACROSS 3, [''CAT'', ''DOG'']),
      (Variable 4 0 ACROSS 3, [''CAT'', ''DOG'']), (Variable 6 0 ACROSS 3, [''CAT'', ''DOG''])]"
    by code_simp
  have 2: "fst (deepcopy_domains (init_creator four_rows)) = 1"
    by (simp add: deepcopy_domains_def init_creator_def)
  from four_rows_first_value have 3:
    "\<exists>s'. try_values 4 four_rows (Variable 0 0 ACROSS 3) 1 [''CAT''] []
               (snd (deepcopy_domains (init_creator four_rows))) = Inr (None, [], s')
          \<and> domains s' = 1
          \<and> store s' (domains s') =
             [(Variable 0 0 ACROSS 3, [''CAT'', ''DOG'']),
              (Variable 2 0 ACROSS 3, [''CAT'', ''DOG'']),
              (Variable 4 0 ACROSS 3, [''CAT'', ''DOG'']),
              (Variable 6 0 ACROSS 3, [''CAT'', ''DOG''])]"
    by (auto split: sum.splits)
  from four_rows_both_values have 4:
    "\<exists>s'. try_values 4 four_rows (Variable 0 0 ACROSS 3) 1 [''CAT'', ''DOG''] []
               (snd (deepcopy_domains (init_creator four_rows))) = Inr (None, [], s')
          \<and> domains s' = 1
          \<and> store s' (domains s') =
             [(Variable 0 0 ACROSS 3, [''DOG'']), (Variable 2 0 ACROSS 3, [''CAT'']),
              (Variable 4 0 ACROSS 3, [''CAT'']), (Variable 6 0 ACROSS 3, [''CAT'', ''DOG''])]"
    by (auto split: sum.splits)
  from four_rows_solve have 5:
    "\<exists>s'. solve 5 four_rows (init_creator four_rows) = Inr (None, [], s')
          \<and> domains s' = 1
          \<and> store s' (domains s') =
             [(Variable 0 0 ACROSS 3, [''DOG'']), (Variable 2 0 ACROSS 3, [''CAT'']),
              (Variable 4 0 ACROSS 3, [''CAT'']), (Variable 6 0 ACROSS 3, [''CAT'', ''DOG''])]"
    by (auto split: sum.splits)
  from 1 2 3 4 5 show ?thesis by blast
qed

end
